theory Spec2Isabelle
  imports Main
begin

section \<open>Errors\<close>

text \<open>
  Every way a request of \<^verbatim>\<open>app.py\<close> can fail is a value: the Python exceptions that
  the date library and list indexing raise, and the two error responses the routes return
  themselves (400 for an empty field, 404 for an unknown entry).
\<close>

datatype error = ValueError | OverflowError | IndexError | BadRequest | NotFound

section \<open>Calendar dates: \<^verbatim>\<open>datetime.date\<close>\<close>

text \<open>
  A \<^verbatim>\<open>datetime.date\<close> holds a year in 1..9999, a month and a day of that month
  (proleptic Gregorian calendar). Python orders dates as the triples
  \<^verbatim>\<open>(year, month, day)\<close>.
\<close>

datatype date = Date (year: nat) (month: nat) (day: nat)

definition MINYEAR :: nat where "MINYEAR = 1"
definition MAXYEAR :: nat where "MAXYEAR = 9999"

definition is_leap :: "nat \<Rightarrow> bool" where
  "is_leap y = (y mod 4 = 0 \<and> (y mod 100 \<noteq> 0 \<or> y mod 400 = 0))"

definition days_in_month :: "nat \<Rightarrow> nat \<Rightarrow> nat" where
  "days_in_month y m =
     (if m = 2 then (if is_leap y then 29 else 28)
      else if m = 4 \<or> m = 6 \<or> m = 9 \<or> m = 11 then 30 else 31)"

definition valid_date :: "date \<Rightarrow> bool" where
  "valid_date d =
     (MINYEAR \<le> year d \<and> year d \<le> MAXYEAR \<and> 1 \<le> month d \<and> month d \<le> 12 \<and>
      1 \<le> day d \<and> day d \<le> days_in_month (year d) (month d))"

definition date_le :: "date \<Rightarrow> date \<Rightarrow> bool" where
  "date_le a b =
     (year a < year b \<or>
      (year a = year b \<and> (month a < month b \<or> (month a = month b \<and> day a \<le> day b))))"

definition date_max :: date where
  "date_max = Date MAXYEAR 12 31"

text \<open>The day after \<open>d\<close>: the next day of the month, else the first of the next month,
  else the first of January of the next year.\<close>

definition next_day :: "date \<Rightarrow> date" where
  "next_day d =
     (if day d < days_in_month (year d) (month d) then Date (year d) (month d) (day d + 1)
      else if month d < 12 then Date (year d) (month d + 1) 1
      else Date (year d + 1) 1 1)"

text \<open>
  \<^verbatim>\<open>d + timedelta(days=n)\<close> for \<open>n \<ge> 0\<close>: the date \<open>n\<close> days after \<open>d\<close>. Python raises
  \<^verbatim>\<open>OverflowError\<close> when the result would lie after 9999-12-31.
\<close>

fun date_add_days :: "date \<Rightarrow> nat \<Rightarrow> error + date" where
  "date_add_days d n =
     (if n = 0 then Inr d
      else if d = date_max then Inl OverflowError
      else date_add_days (next_day d) (n - 1))"

declare date_add_days.simps [simp del]

text \<open>
  \<^verbatim>\<open>date.toordinal()\<close>, as CPython computes it: the days before the year, the days before
  the month, and the day. It is used only to cross-check \<open>next_day\<close> against the ordinal
  arithmetic by which CPython adds a \<^verbatim>\<open>timedelta\<close>.
\<close>

definition days_before_year :: "nat \<Rightarrow> nat" where
  "days_before_year y = (y - 1) * 365 + (y - 1) div 4 - (y - 1) div 100 + (y - 1) div 400"

definition days_before_month :: "nat \<Rightarrow> nat \<Rightarrow> nat" where
  "days_before_month y m =
     [0, 0, 31, 59, 90, 120, 151, 181, 212, 243, 273, 304, 334] ! m +
     (if 2 < m \<and> is_leap y then 1 else 0)"

definition toordinal :: "date \<Rightarrow> nat" where
  "toordinal d = days_before_year (year d) + days_before_month (year d) (month d) + day d"

section \<open>ISO strings: \<^verbatim>\<open>isoformat\<close> and \<^verbatim>\<open>strptime\<close>\<close>

definition digit_char :: "nat \<Rightarrow> char" where
  "digit_char n = ''0123456789'' ! n"

text \<open>The decimal numeral of a natural number, as \<^verbatim>\<open>%d\<close> prints it.\<close>

fun dec :: "nat \<Rightarrow> string" where
  "dec n = (if n < 10 then [digit_char n] else dec (n div 10) @ [digit_char (n mod 10)])"

declare dec.simps [simp del]

text \<open>\<^verbatim>\<open>%04d\<close> and \<^verbatim>\<open>%02d\<close>: zero padding on the left up to the width.\<close>

definition zero_pad :: "nat \<Rightarrow> nat \<Rightarrow> string" where
  "zero_pad w n = replicate (w - length (dec n)) (CHR ''0'') @ dec n"

text \<open>\<^verbatim>\<open>date.isoformat()\<close>: \<^verbatim>\<open>"%04d-%02d-%02d" % (year, month, day)\<close>.\<close>

definition isoformat :: "date \<Rightarrow> string" where
  "isoformat d = zero_pad 4 (year d) @ ''-'' @ zero_pad 2 (month d) @ ''-'' @ zero_pad 2 (day d)"

text \<open>Python compares strings lexicographically by code point; a proper prefix is smaller.\<close>

fun str_le :: "string \<Rightarrow> string \<Rightarrow> bool" where
  "str_le [] ys = True"
| "str_le (x # xs) [] = False"
| "str_le (x # xs) (y # ys) =
     ((of_char x :: nat) < of_char y \<or> (x = y \<and> str_le xs ys))"

definition is_digit :: "char \<Rightarrow> bool" where
  "is_digit c = (48 \<le> (of_char c :: nat) \<and> (of_char c :: nat) \<le> 57)"

definition digit_val :: "char \<Rightarrow> nat" where
  "digit_val c = of_char c - 48"

definition int_of_digits :: "string \<Rightarrow> nat" where
  "int_of_digits s = foldl (\<lambda>a c. 10 * a + digit_val c) 0 s"

text \<open>\<^verbatim>\<open>s.split(c)\<close>: the pieces of \<open>s\<close> between the occurrences of \<open>c\<close>.\<close>

fun split_on :: "char \<Rightarrow> string \<Rightarrow> string list" where
  "split_on c [] = [[]]"
| "split_on c (x # xs) =
     (if x = c then [] # split_on c xs
      else (case split_on c xs of [] \<Rightarrow> [[x]] | w # ws \<Rightarrow> (x # w) # ws))"

text \<open>
  \<^verbatim>\<open>datetime.strptime(s, "%Y-%m-%d").date()\<close>. The format compiles to the regular
  expression \<^verbatim>\<open>(\d\d\d\d)-(1[0-2]|0[1-9]|[1-9])-(3[01]|[12]\d|0[1-9]|[1-9]| [1-9])\<close>, which
  must match the whole string; no group can match a hyphen, so the string is its three
  hyphen-separated fields. The fields are then checked to form a date.
\<close>

definition year_field :: "string \<Rightarrow> bool" where
  "year_field s = (length s = 4 \<and> list_all is_digit s)"

definition nonzero_digit :: "char \<Rightarrow> bool" where
  "nonzero_digit c = (is_digit c \<and> c \<noteq> CHR ''0'')"

definition month_field :: "string \<Rightarrow> bool" where
  "month_field s =
     (case s of
        [a] \<Rightarrow> nonzero_digit a
      | [a, b] \<Rightarrow> (a = CHR ''1'' \<and> (b = CHR ''0'' \<or> b = CHR ''1'' \<or> b = CHR ''2'')) \<or>
                  (a = CHR ''0'' \<and> nonzero_digit b)
      | _ \<Rightarrow> False)"

definition day_field :: "string \<Rightarrow> bool" where
  "day_field s =
     (case s of
        [a] \<Rightarrow> nonzero_digit a
      | [a, b] \<Rightarrow> (a = CHR ''3'' \<and> (b = CHR ''0'' \<or> b = CHR ''1'')) \<or>
                  ((a = CHR ''1'' \<or> a = CHR ''2'') \<and> is_digit b) \<or>
                  (a = CHR ''0'' \<and> nonzero_digit b) \<or>
                  (a = CHR '' '' \<and> nonzero_digit b)
      | _ \<Rightarrow> False)"

definition strptime_date :: "string \<Rightarrow> error + date" where
  "strptime_date s =
     (case split_on (CHR ''-'') s of
        [ys, ms, ds] \<Rightarrow>
          if year_field ys \<and> month_field ms \<and> day_field ds then
            (let d = Date (int_of_digits ys) (int_of_digits ms)
                          (int_of_digits (filter is_digit ds))
             in if valid_date d then Inr d else Inl ValueError)
          else Inl ValueError
      | _ \<Rightarrow> Inl ValueError)"

section \<open>Text: \<^verbatim>\<open>strip\<close>, \<^verbatim>\<open>lower\<close>, \<^verbatim>\<open>trim\<close>, \<^verbatim>\<open>toLowerCase\<close>\<close>

text \<open>
  A text is a string of characters with code points 0 to 255 (Latin-1, the range of
  \<open>char\<close>); the characters beyond are outside this model. Python's \<^verbatim>\<open>str.strip()\<close>
  removes the characters for which \<^verbatim>\<open>str.isspace()\<close> holds: in this range 9 to 13, 28 to
  32, U+0085 and U+00A0. JavaScript's \<^verbatim>\<open>String.prototype.trim()\<close> removes white space and
  line terminators: in this range 9 to 13, 32 and U+00A0, but neither 28 to 31 nor U+0085.
\<close>

definition py_isspace :: "char \<Rightarrow> bool" where
  "py_isspace c =
     ((9 \<le> (of_char c :: nat) \<and> (of_char c :: nat) \<le> 13) \<or>
      (28 \<le> (of_char c :: nat) \<and> (of_char c :: nat) \<le> 32) \<or>
      (of_char c :: nat) = 133 \<or> (of_char c :: nat) = 160)"

definition js_isspace :: "char \<Rightarrow> bool" where
  "js_isspace c =
     ((9 \<le> (of_char c :: nat) \<and> (of_char c :: nat) \<le> 13) \<or> (of_char c :: nat) = 32 \<or>
      (of_char c :: nat) = 160)"

definition strip_by :: "(char \<Rightarrow> bool) \<Rightarrow> string \<Rightarrow> string" where
  "strip_by ws s = rev (dropWhile ws (rev (dropWhile ws s)))"

definition py_strip :: "string \<Rightarrow> string" where
  "py_strip = strip_by py_isspace"

definition js_trim :: "string \<Rightarrow> string" where
  "js_trim = strip_by js_isspace"

text \<open>
  \<^verbatim>\<open>str.lower()\<close> and \<^verbatim>\<open>toLowerCase()\<close> map each capital letter to its small letter and
  leave every other character: in this range the capitals are A to Z and U+00C0 to U+00DE
  without the multiplication sign U+00D7, and the small letter is 32 code points further
  (U+00DF and U+00FF are small letters with no capital in the range).
\<close>

definition capitals :: string where
  "capitals = ''ABCDEFGHIJKLMNOPQRSTUVWXYZ'' @
     [CHR 0xC0, CHR 0xC1, CHR 0xC2, CHR 0xC3, CHR 0xC4, CHR 0xC5, CHR 0xC6, CHR 0xC7,
      CHR 0xC8, CHR 0xC9, CHR 0xCA, CHR 0xCB, CHR 0xCC, CHR 0xCD, CHR 0xCE, CHR 0xCF,
      CHR 0xD0, CHR 0xD1, CHR 0xD2, CHR 0xD3, CHR 0xD4, CHR 0xD5, CHR 0xD6,
      CHR 0xD8, CHR 0xD9, CHR 0xDA, CHR 0xDB, CHR 0xDC, CHR 0xDD, CHR 0xDE]"

definition smalls :: string where
  "smalls = ''abcdefghijklmnopqrstuvwxyz'' @
     [CHR 0xE0, CHR 0xE1, CHR 0xE2, CHR 0xE3, CHR 0xE4, CHR 0xE5, CHR 0xE6, CHR 0xE7,
      CHR 0xE8, CHR 0xE9, CHR 0xEA, CHR 0xEB, CHR 0xEC, CHR 0xED, CHR 0xEE, CHR 0xEF,
      CHR 0xF0, CHR 0xF1, CHR 0xF2, CHR 0xF3, CHR 0xF4, CHR 0xF5, CHR 0xF6,
      CHR 0xF8, CHR 0xF9, CHR 0xFA, CHR 0xFB, CHR 0xFC, CHR 0xFD, CHR 0xFE]"

definition lower_char :: "char \<Rightarrow> char" where
  "lower_char c = (case map_of (zip capitals smalls) c of None \<Rightarrow> c | Some l \<Rightarrow> l)"

definition py_lower :: "string \<Rightarrow> string" where
  "py_lower = map lower_char"

definition js_toLowerCase :: "string \<Rightarrow> string" where
  "js_toLowerCase = map lower_char"

section \<open>The data model: \<^verbatim>\<open>Entry\<close>\<close>

text \<open>
  A row of the table \<^verbatim>\<open>entries\<close>. The columns \<^verbatim>\<open>schedule\<close> and \<^verbatim>\<open>history\<close> hold
  JSON text; the model holds the decoded lists (\<^verbatim>\<open>json.loads\<close> of what
  \<^verbatim>\<open>json.dumps\<close> wrote). A history item is the dictionary
  \<^verbatim>\<open>{"date": ..., "result": ...}\<close>.
\<close>

record history_item =
  hist_date :: string
  hist_result :: string

record entry =
  entry_id :: nat
  user_id :: nat
  japanese :: string
  english :: string
  registered_at :: string
  schedule :: "string list"
  next_review_index :: int
  history :: "history_item list"
  completed :: bool

type_synonym database = "entry list"

definition REVIEW_INTERVALS :: "nat list" where
  "REVIEW_INTERVALS = [1, 3, 7, 14, 30]"

text \<open>A list comprehension whose element expression can raise: the first error ends it.\<close>

fun collect :: "(error + 'a) list \<Rightarrow> error + 'a list" where
  "collect [] = Inr []"
| "collect (x # xs) =
     (case x of
        Inl e \<Rightarrow> Inl e
      | Inr v \<Rightarrow> (case collect xs of Inl e \<Rightarrow> Inl e | Inr vs \<Rightarrow> Inr (v # vs)))"

definition generate_schedule :: "string \<Rightarrow> error + string list" where
  "generate_schedule registered_date_str =
     (case strptime_date registered_date_str of
        Inl e \<Rightarrow> Inl e
      | Inr reg_date \<Rightarrow>
          collect (map (\<lambda>d. map_sum id isoformat (date_add_days reg_date d)) REVIEW_INTERVALS))"

text \<open>\<^verbatim>\<open>get_today_str()\<close>; the argument is what \<^verbatim>\<open>datetime.now().date()\<close> returns at
  that reading of the clock.\<close>

definition get_today_str :: "date \<Rightarrow> string" where
  "get_today_str now = isoformat now"

text \<open>Python's \<^verbatim>\<open>xs[i]\<close> and \<^verbatim>\<open>xs[i] = v\<close>: a negative index counts from the end, an
  index out of range raises \<^verbatim>\<open>IndexError\<close>.\<close>

definition list_getitem :: "'a list \<Rightarrow> int \<Rightarrow> error + 'a" where
  "list_getitem xs i =
     (let n = int (length xs); j = (if i < 0 then i + n else i)
      in if 0 \<le> j \<and> j < n then Inr (xs ! nat j) else Inl IndexError)"

definition list_setitem :: "'a list \<Rightarrow> int \<Rightarrow> 'a \<Rightarrow> error + 'a list" where
  "list_setitem xs i v =
     (let n = int (length xs); j = (if i < 0 then i + n else i)
      in if 0 \<le> j \<and> j < n then Inr (xs[nat j := v]) else Inl IndexError)"

section \<open>The routes\<close>

text \<open>\<^verbatim>\<open>Entry.query.filter_by(id=entry_id, user_id=uid).first()\<close> and the commit of a
  changed row.\<close>

definition find_entry :: "nat \<Rightarrow> nat \<Rightarrow> database \<Rightarrow> entry option" where
  "find_entry eid uid db = find (\<lambda>e. entry_id e = eid \<and> user_id e = uid) db"

definition save_entry :: "entry \<Rightarrow> database \<Rightarrow> database" where
  "save_entry e db = map (\<lambda>x. if entry_id x = entry_id e then e else x) db"

definition next_id :: "database \<Rightarrow> nat" where
  "next_id db = Suc (fold max (map entry_id db) 0)"

text \<open>The \<^verbatim>\<open>Entry(...)\<close> that \<^verbatim>\<open>/api/add\<close> and \<^verbatim>\<open>/api/bulk-add\<close> both build.\<close>

definition new_entry :: "nat \<Rightarrow> nat \<Rightarrow> string \<Rightarrow> string \<Rightarrow> string \<Rightarrow> string list \<Rightarrow> entry" where
  "new_entry i uid jp en today sched =
     \<lparr>entry_id = i, user_id = uid, japanese = jp, english = en, registered_at = today,
      schedule = sched, next_review_index = 0, history = [], completed = False\<rparr>"

text \<open>\<^verbatim>\<open>/api/add\<close>: the response (the new entry, or the error) and the table afterwards.\<close>

definition api_add :: "date \<Rightarrow> nat \<Rightarrow> string \<Rightarrow> string \<Rightarrow> database \<Rightarrow> (error + entry) \<times> database" where
  "api_add now uid japanese_field english_field db =
     (let jp = py_strip japanese_field; en = py_strip english_field
      in if jp = [] \<or> en = [] then (Inl BadRequest, db)
         else
           (let today = get_today_str now
            in case generate_schedule today of
                 Inl e \<Rightarrow> (Inl e, db)
               | Inr sched \<Rightarrow>
                   (let entry = new_entry (next_id db) uid jp en today sched
                    in (Inr entry, db @ [entry]))))"

text \<open>\<^verbatim>\<open>/api/edit\<close>.\<close>

definition api_edit :: "nat \<Rightarrow> nat \<Rightarrow> string \<Rightarrow> string \<Rightarrow> database \<Rightarrow> (error + unit) \<times> database" where
  "api_edit uid eid japanese_field english_field db =
     (let jp = py_strip japanese_field; en = py_strip english_field
      in if jp = [] \<or> en = [] then (Inl BadRequest, db)
         else
           (case find_entry eid uid db of
              None \<Rightarrow> (Inl NotFound, db)
            | Some entry \<Rightarrow> (Inr (), save_entry (entry\<lparr>japanese := jp, english := en\<rparr>) db)))"

text \<open>The test of \<^verbatim>\<open>/api/answer\<close>: \<^verbatim>\<open>answer.lower() == entry.english.lower()\<close>.\<close>

definition answer_matches :: "string \<Rightarrow> string \<Rightarrow> bool" where
  "answer_matches answer target = (py_lower answer = py_lower target)"

text \<open>
  \<^verbatim>\<open>/api/answer\<close>, from \<^verbatim>\<open>today = get_today_str()\<close> to the assignment of
  \<^verbatim>\<open>entry.history\<close>: the verdict and the changed row, or the exception raised (and then
  nothing is committed). \<open>answer\<close> is the stripped text. The route reads the clock twice:
  \<open>now\<close> is the date of the first reading (\<^verbatim>\<open>get_today_str()\<close>, the date of the history
  record), \<open>later\<close> the date of the second one (\<^verbatim>\<open>datetime.now().date()\<close> in the
  \<^verbatim>\<open>else\<close> branch, from which tomorrow is computed). They differ when midnight passes
  between the two.
\<close>

definition answer_entry :: "date \<Rightarrow> date \<Rightarrow> string \<Rightarrow> entry \<Rightarrow> error + bool \<times> entry" where
  "answer_entry now later answer entry =
     (let today = get_today_str now;
          correct = answer_matches answer (english entry);
          hist = history entry;
          sched = schedule entry
      in if correct then
           (let hist' = hist @ [\<lparr>hist_date = today, hist_result = ''correct''\<rparr>];
                entry1 = entry\<lparr>next_review_index := next_review_index entry + 1\<rparr>;
                entry2 = (if next_review_index entry1 \<ge> int (length sched)
                          then entry1\<lparr>completed := True\<rparr> else entry1)
            in Inr (correct, entry2\<lparr>history := hist'\<rparr>))
         else
           (let hist' = hist @ [\<lparr>hist_date = today, hist_result = ''incorrect''\<rparr>]
            in case date_add_days later 1 of
                 Inl e \<Rightarrow> Inl e
               | Inr tomorrow \<Rightarrow>
                   (case list_setitem sched (next_review_index entry) (isoformat tomorrow) of
                      Inl e \<Rightarrow> Inl e
                    | Inr sched' \<Rightarrow> Inr (correct, entry\<lparr>schedule := sched', history := hist'\<rparr>))))"

record answer_response =
  resp_correct :: bool
  resp_expected :: string
  resp_completed :: bool

text \<open>\<^verbatim>\<open>/api/answer\<close>. The field \<^verbatim>\<open>answer\<close> of the request may be missing
  (\<^verbatim>\<open>data.get("answer", "")\<close>).\<close>

definition api_answer ::
  "date \<Rightarrow> date \<Rightarrow> nat \<Rightarrow> nat \<Rightarrow> string option \<Rightarrow> database \<Rightarrow>
   (error + answer_response) \<times> database" where
  "api_answer now later uid eid answer_field db =
     (let answer = py_strip (case answer_field of None \<Rightarrow> [] | Some s \<Rightarrow> s)
      in case find_entry eid uid db of
           None \<Rightarrow> (Inl NotFound, db)
         | Some entry \<Rightarrow>
             (case answer_entry now later answer entry of
                Inl e \<Rightarrow> (Inl e, db)
              | Inr (correct, entry') \<Rightarrow>
                  (Inr \<lparr>resp_correct = correct, resp_expected = english entry',
                        resp_completed = completed entry'\<rparr>,
                   save_entry entry' db)))"

text \<open>The test both \<^verbatim>\<open>/api/data\<close> and \<^verbatim>\<open>/api/reviews\<close> apply to a row:
  \<^verbatim>\<open>idx < len(sched) and sched[idx] <= today\<close>, a comparison of strings.\<close>

definition due_check :: "string \<Rightarrow> entry \<Rightarrow> error + bool" where
  "due_check today e =
     (let sched = schedule e; idx = next_review_index e
      in if idx < int (length sched) then
           (case list_getitem sched idx of Inl err \<Rightarrow> Inl err | Inr s \<Rightarrow> Inr (str_le s today))
         else Inr False)"

text \<open>The loop body of \<^verbatim>\<open>/api/data\<close>: a completed row is skipped, another is due when
  the test holds. \<^verbatim>\<open>/api/reviews\<close> leaves the completed rows out in its query.\<close>

definition is_due :: "string \<Rightarrow> entry \<Rightarrow> error + bool" where
  "is_due today e = (if completed e then Inr False else due_check today e)"

fun select_due :: "string \<Rightarrow> entry list \<Rightarrow> error + entry list" where
  "select_due today [] = Inr []"
| "select_due today (e # es) =
     (case due_check today e of
        Inl err \<Rightarrow> Inl err
      | Inr b \<Rightarrow>
          (case select_due today es of
             Inl err \<Rightarrow> Inl err
           | Inr r \<Rightarrow> Inr (if b then e # r else r)))"

definition api_reviews :: "date \<Rightarrow> nat \<Rightarrow> database \<Rightarrow> error + entry list" where
  "api_reviews now uid db =
     select_due (get_today_str now) (filter (\<lambda>e. user_id e = uid \<and> \<not> completed e) db)"

definition api_data_review_ids :: "date \<Rightarrow> nat \<Rightarrow> database \<Rightarrow> error + nat list" where
  "api_data_review_ids now uid db =
     map_sum id (map entry_id)
       (select_due (get_today_str now)
          (filter (\<lambda>e. \<not> completed e) (filter (\<lambda>e. user_id e = uid) db)))"

definition api_today_practiced :: "date \<Rightarrow> nat \<Rightarrow> database \<Rightarrow> entry list" where
  "api_today_practiced now uid db =
     filter (\<lambda>e. list_ex (\<lambda>h. hist_date h = get_today_str now) (history e))
       (filter (\<lambda>e. user_id e = uid) db)"

section \<open>The client: Review Test and Practice\<close>

text \<open>
  The page keeps two variables, \<^verbatim>\<open>testState\<close> and \<^verbatim>\<open>practiceState\<close>, and shows one
  view in \<^verbatim>\<open>#test-content\<close>. During a practice \<^verbatim>\<open>testState\<close> holds the marker
  \<^verbatim>\<open>{tested: 1, practice: true}\<close>. Each handler is modelled as one step: its
  \<^verbatim>\<open>fetch\<close> is answered before the next event is taken.
\<close>

record test_state =
  ts_reviews :: "entry list"
  ts_idx :: nat
  ts_correct :: nat
  ts_tested :: nat
  ts_waiting :: bool
  ts_incorrect :: "entry list"
  ts_round :: nat
  ts_totalOriginal :: nat

record practice_state =
  ps_reviews :: "entry list"
  ps_idx :: nat
  ps_correct :: nat
  ps_total :: nat
  ps_waiting :: bool
  ps_incorrect :: "entry list"

datatype test_var = TestNull | Test test_state | PracticeMarker

datatype view =
    Menu
  | EmptyResult
  | Question
  | RoundResult
  | FinalResult
  | PracticeEmpty
  | PracticeQuestion
  | PracticeResult nat nat "entry list"

record world =
  server_db :: database
  testState :: test_var
  practiceState :: "practice_state option"
  shown :: view

definition startTest :: "date \<Rightarrow> nat \<Rightarrow> world \<Rightarrow> world" where
  "startTest now uid w =
     (case api_reviews now uid (server_db w) of
        Inl e \<Rightarrow> w
      | Inr reviews \<Rightarrow>
          if length reviews = 0 then w\<lparr>shown := EmptyResult\<rparr>
          else w\<lparr>testState := Test \<lparr>ts_reviews = reviews, ts_idx = 0, ts_correct = 0,
                                     ts_tested = 0, ts_waiting = False, ts_incorrect = [],
                                     ts_round = 1, ts_totalOriginal = length reviews\<rparr>,
                 shown := Question\<rparr>)"

definition showFinalResult :: "world \<Rightarrow> world" where
  "showFinalResult w = w\<lparr>shown := FinalResult\<rparr>"

definition showRoundResult :: "world \<Rightarrow> world" where
  "showRoundResult w = w\<lparr>shown := RoundResult\<rparr>"

definition renderQuestion :: "world \<Rightarrow> world" where
  "renderQuestion w = w\<lparr>shown := Question\<rparr>"

definition nextQuestion :: "world \<Rightarrow> world" where
  "nextQuestion w =
     (case testState w of
        Test s0 \<Rightarrow>
          (let s = s0\<lparr>ts_idx := ts_idx s0 + 1, ts_waiting := False\<rparr>;
               w' = w\<lparr>testState := Test s\<rparr>
           in if ts_idx s \<ge> length (ts_reviews s) then
                (if length (ts_incorrect s) = 0 then showFinalResult w' else showRoundResult w')
              else renderQuestion w')
      | _ \<Rightarrow> w)"

text \<open>
  \<^verbatim>\<open>submitAnswer\<close>; \<open>input\<close> is the value of the answer field, \<open>clock\<close> the two dates
  \<^verbatim>\<open>/api/answer\<close> reads from the clock while it serves the request. Once the last question
  is passed (\<^verbatim>\<open>s.idx\<close> at the end of \<^verbatim>\<open>s.reviews\<close>) the page shows a result and has no
  answer field: \<^verbatim>\<open>inp.value\<close> throws and the handler ends with nothing changed. A 404
  answer is JSON without \<^verbatim>\<open>correct\<close>, so the handler takes its \<^verbatim>\<open>else\<close> branch; a
  failed request (500) has no JSON body, \<^verbatim>\<open>r.json()\<close> throws and the handler ends there.
\<close>

definition submitAnswer :: "date \<times> date \<Rightarrow> nat \<Rightarrow> string \<Rightarrow> world \<Rightarrow> world" where
  "submitAnswer clock uid input w =
     (case testState w of
        Test s \<Rightarrow>
          if ts_waiting s then nextQuestion w
          else if ts_idx s \<ge> length (ts_reviews s) then w
          else
            (let answer = js_trim input
             in if answer = [] then w
                else
                  (let entry = ts_reviews s ! ts_idx s;
                       s1 = s\<lparr>ts_tested := ts_tested s + 1\<rparr>
                   in case api_answer (fst clock) (snd clock) uid (entry_id entry) (Some answer)
                             (server_db w) of
                        (Inr d, db') \<Rightarrow>
                          if resp_correct d then
                            w\<lparr>server_db := db',
                              testState := Test (s1\<lparr>ts_correct := ts_correct s1 + 1,
                                                   ts_waiting := True\<rparr>)\<rparr>
                          else
                            w\<lparr>server_db := db',
                              testState := Test (s1\<lparr>ts_incorrect := ts_incorrect s1 @ [entry],
                                                   ts_waiting := True\<rparr>)\<rparr>
                      | (Inl NotFound, db') \<Rightarrow>
                          w\<lparr>server_db := db',
                            testState := Test (s1\<lparr>ts_incorrect := ts_incorrect s1 @ [entry],
                                                 ts_waiting := True\<rparr>)\<rparr>
                      | (Inl _, db') \<Rightarrow> w\<lparr>server_db := db', testState := Test s1\<rparr>))
      | _ \<Rightarrow> w)"

definition startRetry :: "world \<Rightarrow> world" where
  "startRetry w =
     (case testState w of
        Test s \<Rightarrow>
          renderQuestion
            (w\<lparr>testState := Test (s\<lparr>ts_reviews := ts_incorrect s, ts_incorrect := [],
                                      ts_idx := 0, ts_round := ts_round s + 1\<rparr>)\<rparr>)
      | _ \<Rightarrow> w)"

definition confirmBack :: "world \<Rightarrow> world" where
  "confirmBack w = w\<lparr>testState := TestNull, practiceState := None, shown := Menu\<rparr>"

text \<open>\<^verbatim>\<open>startPractice\<close>; \<open>shuffle\<close> is the order in which
  \<^verbatim>\<open>sort(() => Math.random() - 0.5)\<close> leaves the entries.\<close>

definition startPractice :: "date \<Rightarrow> nat \<Rightarrow> (entry list \<Rightarrow> entry list) \<Rightarrow> world \<Rightarrow> world" where
  "startPractice now uid shuffle w =
     (let entries = api_today_practiced now uid (server_db w)
      in if length entries = 0 then w\<lparr>shown := PracticeEmpty\<rparr>
         else
           (let shuffled = shuffle entries
            in w\<lparr>practiceState :=
                   Some \<lparr>ps_reviews = shuffled, ps_idx = 0, ps_correct = 0,
                         ps_total = length shuffled, ps_waiting = False, ps_incorrect = []\<rparr>,
                 testState := PracticeMarker,
                 shown := PracticeQuestion\<rparr>))"

definition showPracticeResult :: "world \<Rightarrow> world" where
  "showPracticeResult w =
     (case practiceState w of
        Some s \<Rightarrow>
          w\<lparr>shown := PracticeResult (ps_correct s) (ps_total s) (ps_incorrect s),
            practiceState := None, testState := TestNull\<rparr>
      | None \<Rightarrow> w)"

definition nextPracticeQuestion :: "world \<Rightarrow> world" where
  "nextPracticeQuestion w =
     (case practiceState w of
        Some s0 \<Rightarrow>
          (let s = s0\<lparr>ps_idx := ps_idx s0 + 1, ps_waiting := False\<rparr>;
               w' = w\<lparr>practiceState := Some s\<rparr>
           in if ps_idx s \<ge> ps_total s then showPracticeResult w'
              else w'\<lparr>shown := PracticeQuestion\<rparr>)
      | None \<Rightarrow> w)"

text \<open>The verdict \<^verbatim>\<open>submitPracticeAnswer\<close> computes in the page.\<close>

definition practice_correct :: "string \<Rightarrow> entry \<Rightarrow> bool" where
  "practice_correct answer entry = (js_toLowerCase answer = js_toLowerCase (english entry))"

definition submitPracticeAnswer :: "string \<Rightarrow> world \<Rightarrow> world" where
  "submitPracticeAnswer input w =
     (case practiceState w of
        Some s \<Rightarrow>
          if ps_waiting s then nextPracticeQuestion w
          else
            (let answer = js_trim input
             in if answer = [] then w
                else if ps_idx s \<ge> length (ps_reviews s) then w
                else
                  (let entry = ps_reviews s ! ps_idx s
                   in if practice_correct answer entry then
                        w\<lparr>practiceState :=
                            Some (s\<lparr>ps_correct := ps_correct s + 1, ps_waiting := True\<rparr>)\<rparr>
                      else
                        w\<lparr>practiceState :=
                            Some (s\<lparr>ps_incorrect := ps_incorrect s @ [entry],
                                    ps_waiting := True\<rparr>)\<rparr>))
      | None \<Rightarrow> w)"

text \<open>The events of a session and a run of them, each with the dates the server reads
  from the clock while it handles the event: \<^verbatim>\<open>/api/answer\<close> reads it twice, the other
  routes once (the first date).\<close>

datatype event =
    StartTest
  | SubmitAnswer string
  | StartRetry
  | ConfirmBack
  | StartPractice "entry list \<Rightarrow> entry list"
  | SubmitPracticeAnswer string

fun step :: "nat \<Rightarrow> (date \<times> date) \<times> event \<Rightarrow> world \<Rightarrow> world" where
  "step uid (clock, StartTest) w = startTest (fst clock) uid w"
| "step uid (clock, SubmitAnswer input) w = submitAnswer clock uid input w"
| "step uid (clock, StartRetry) w = startRetry w"
| "step uid (clock, ConfirmBack) w = confirmBack w"
| "step uid (clock, StartPractice shuffle) w = startPractice (fst clock) uid shuffle w"
| "step uid (clock, SubmitPracticeAnswer input) w = submitPracticeAnswer input w"

fun run :: "nat \<Rightarrow> ((date \<times> date) \<times> event) list \<Rightarrow> world \<Rightarrow> world" where
  "run uid [] w = w"
| "run uid (ev # evs) w = run uid evs (step uid ev w)"

text \<open>A submission in a Review Test: the answer is sent with the button, and the same
  button, now labelled "next", is pressed to go on.\<close>

fun submissions :: "((date \<times> date) \<times> string) list \<Rightarrow> ((date \<times> date) \<times> event) list" where
  "submissions [] = []"
| "submissions ((clock, input) # rest) =
     (clock, SubmitAnswer input) # (clock, SubmitAnswer input) # submissions rest"

fun practice_event :: "event \<Rightarrow> bool" where
  "practice_event (StartPractice shuffle) = True"
| "practice_event (SubmitPracticeAnswer input) = True"
| "practice_event _ = False"

section \<open>The specification's vocabulary\<close>

text \<open>The date \<open>n\<close> days after \<open>d\<close> in the calendar (\<open>d + n\<close> days), with no upper bound.\<close>

fun days_after :: "date \<Rightarrow> nat \<Rightarrow> date" where
  "days_after d n = (if n = 0 then d else days_after (next_day d) (n - 1))"

declare days_after.simps [simp del]

text \<open>
  "Case-insensitive exact match": the two texts have the same length and agree character by
  character, up to the case of a letter. "Trimmed of surrounding whitespace": \<open>t\<close> is
  \<open>raw\<close> without a run of white space at its start and at its end, and \<open>t\<close> itself neither
  starts nor ends with white space.
\<close>

definition is_upper :: "char \<Rightarrow> bool" where
  "is_upper c =
     ((65 \<le> (of_char c :: nat) \<and> (of_char c :: nat) \<le> 90) \<or>
      (192 \<le> (of_char c :: nat) \<and> (of_char c :: nat) \<le> 222 \<and> (of_char c :: nat) \<noteq> 215))"

definition case_variant :: "char \<Rightarrow> char \<Rightarrow> bool" where
  "case_variant x y =
     (x = y \<or> (is_upper x \<and> (of_char y :: nat) = of_char x + 32) \<or>
      (is_upper y \<and> (of_char x :: nat) = of_char y + 32))"

definition equal_ignoring_case :: "string \<Rightarrow> string \<Rightarrow> bool" where
  "equal_ignoring_case a b = list_all2 case_variant a b"

definition trimmed_of :: "(char \<Rightarrow> bool) \<Rightarrow> string \<Rightarrow> string \<Rightarrow> bool" where
  "trimmed_of ws raw t =
     (\<exists>l r. raw = l @ t @ r \<and> list_all ws l \<and> list_all ws r \<and>
            (t = [] \<or> (\<not> ws (hd t) \<and> \<not> ws (last t))))"

text \<open>A string that is the ISO form of the date it parses to.\<close>

definition iso_string :: "string \<Rightarrow> bool" where
  "iso_string s = (case strptime_date s of Inl e \<Rightarrow> False | Inr d \<Rightarrow> isoformat d = s)"

text \<open>The date strings the program produces: by \<^verbatim>\<open>get_today_str\<close>, by
  \<^verbatim>\<open>generate_schedule\<close> at a registration, and by the postponement to tomorrow in
  \<^verbatim>\<open>/api/answer\<close>.\<close>

inductive produced :: "string \<Rightarrow> bool" where
  today: "valid_date now \<Longrightarrow> produced (get_today_str now)"
| scheduled:
    "valid_date now \<Longrightarrow> generate_schedule (get_today_str now) = Inr sched \<Longrightarrow>
     s \<in> set sched \<Longrightarrow> produced s"
| postponed:
    "valid_date now \<Longrightarrow> date_add_days now 1 = Inr tomorrow \<Longrightarrow>
     produced (isoformat tomorrow)"

text \<open>The state predicate of the specification: the index lies in 0..5, and the entry is
  completed exactly when the index is 5.\<close>

definition state_predicate :: "entry \<Rightarrow> bool" where
  "state_predicate e =
     (0 \<le> next_review_index e \<and> next_review_index e \<le> 5 \<and>
      (completed e \<longleftrightarrow> next_review_index e = 5))"

text \<open>The entry of the specification's example: registered on 2024-01-01, with the given
  schedule, index, history and completion flag.\<close>

definition example_entry :: "string list \<Rightarrow> int \<Rightarrow> history_item list \<Rightarrow> bool \<Rightarrow> entry" where
  "example_entry sched idx hist done =
     \<lparr>entry_id = 1, user_id = 1, japanese = ''neko'', english = ''cat'',
      registered_at = ''2024-01-01'', schedule = sched, next_review_index = idx,
      history = hist, completed = done\<rparr>"

definition example_schedule :: "string list" where
  "example_schedule = [''2024-01-02'', ''2024-01-04'', ''2024-01-08'', ''2024-01-15'', ''2024-01-31'']"

definition correct_on :: "string \<Rightarrow> history_item" where
  "correct_on today = \<lparr>hist_date = today, hist_result = ''correct''\<rparr>"

definition incorrect_on :: "string \<Rightarrow> history_item" where
  "incorrect_on today = \<lparr>hist_date = today, hist_result = ''incorrect''\<rparr>"

text \<open>A table holding the example entry at tier 1, and the page before any session.\<close>

definition example_due :: entry where
  "example_due = example_entry example_schedule 1 [correct_on ''2024-01-02''] False"

definition example_world :: world where
  "example_world =
     \<lparr>server_db = [example_due], testState = TestNull, practiceState = None, shown = Menu\<rparr>"

section \<open>Reachable entries\<close>

text \<open>The rows the routes can leave in the table: created by \<^verbatim>\<open>/api/add\<close> or
  \<^verbatim>\<open>/api/bulk-add\<close>, then changed by \<^verbatim>\<open>/api/answer\<close> and \<^verbatim>\<open>/api/edit\<close>. The clock
  always returns a date.\<close>

inductive reachable :: "entry \<Rightarrow> bool" where
  created:
    "valid_date now \<Longrightarrow> jp \<noteq> [] \<Longrightarrow> en \<noteq> [] \<Longrightarrow>
     generate_schedule (get_today_str now) = Inr sched \<Longrightarrow>
     reachable (new_entry i uid jp en (get_today_str now) sched)"
| answered:
    "reachable e \<Longrightarrow> valid_date now \<Longrightarrow> valid_date later \<Longrightarrow>
     answer_entry now later answer e = Inr (c, e') \<Longrightarrow> reachable e'"
| edited:
    "reachable e \<Longrightarrow> jp \<noteq> [] \<Longrightarrow> en \<noteq> [] \<Longrightarrow>
     reachable (e\<lparr>japanese := jp, english := en\<rparr>)"

text \<open>What every reachable entry satisfies: five schedule strings, each the ISO form of a
  date; an index that is not negative; completion exactly from index 5 on; non-empty texts;
  and, for every tier after the current one, the date \<open>generate_schedule\<close> computes from
  the registration date.\<close>

definition entry_inv :: "entry \<Rightarrow> bool" where
  "entry_inv e =
     (length (schedule e) = 5 \<and> 0 \<le> next_review_index e \<and>
      (completed e \<longleftrightarrow> 5 \<le> next_review_index e) \<and>
      list_all iso_string (schedule e) \<and> english e \<noteq> [] \<and> japanese e \<noteq> [] \<and>
      iso_string (registered_at e) \<and>
      (\<exists>g. generate_schedule (registered_at e) = Inr g \<and>
           (\<forall>j<5. next_review_index e < int j \<longrightarrow> schedule e ! j = g ! j)))"

section \<open>Lemmas and theorems\<close>

lemma below_ten: "k < 10 \<Longrightarrow> k \<in> {0, 1, 2, 3, 4, 5, 6, 7, 8, 9::nat}"
  by auto

lemma of_char_digit_char: "n < 10 \<Longrightarrow> (of_char (digit_char n) :: nat) = 48 + n"
proof -
  assume "n < 10"
  then have "n \<in> {0, 1, 2, 3, 4, 5, 6, 7, 8, 9::nat}" by (rule below_ten)
  then show ?thesis by (auto simp: digit_char_def)
qed

lemma is_digit_digit_char: "n < 10 \<Longrightarrow> is_digit (digit_char n)"
  by (simp add: is_digit_def of_char_digit_char)

lemma digit_val_digit_char: "n < 10 \<Longrightarrow> digit_val (digit_char n) = n"
  by (simp add: digit_val_def of_char_digit_char)

lemma digit_char_not_hyphen: "n < 10 \<Longrightarrow> digit_char n \<noteq> CHR ''-''"
proof
  assume n: "n < 10" and eq: "digit_char n = CHR ''-''"
  from eq have "(of_char (digit_char n) :: nat) = of_char (CHR ''-'')" by (rule arg_cong)
  with n show False by (simp add: of_char_digit_char)
qed

lemma digit_char_inj: "a < 10 \<Longrightarrow> b < 10 \<Longrightarrow> digit_char a = digit_char b \<longleftrightarrow> a = b"
proof
  assume a: "a < 10" and b: "b < 10" and eq: "digit_char a = digit_char b"
  from eq have "(of_char (digit_char a) :: nat) = of_char (digit_char b)" by (rule arg_cong)
  with a b show "a = b" by (simp only: of_char_digit_char add_left_cancel)
qed simp

lemma digit_char_zero: "n < 10 \<Longrightarrow> digit_char n = CHR ''0'' \<longleftrightarrow> n = 0"
  using digit_char_inj [of n 0] by (simp add: digit_char_def)

lemma dec_lt10: "n < 10 \<Longrightarrow> dec n = [digit_char n]"
  by (simp add: dec.simps)

lemma dec_lt100: "10 \<le> n \<Longrightarrow> n < 100 \<Longrightarrow> dec n = [digit_char (n div 10), digit_char (n mod 10)]"
  by (subst dec.simps) (simp add: dec_lt10)

lemma dec_lt1000:
  "100 \<le> n \<Longrightarrow> n < 1000 \<Longrightarrow>
   dec n = [digit_char (n div 100), digit_char (n div 10 mod 10), digit_char (n mod 10)]"
  by (subst dec.simps) (simp add: dec_lt100 div_mult2_eq [symmetric])

lemma dec_lt10000:
  "1000 \<le> n \<Longrightarrow> n < 10000 \<Longrightarrow>
   dec n = [digit_char (n div 1000), digit_char (n div 100 mod 10), digit_char (n div 10 mod 10),
            digit_char (n mod 10)]"
  by (subst dec.simps) (simp add: dec_lt1000 div_mult2_eq [symmetric])

lemma zero_pad2: "n < 100 \<Longrightarrow> zero_pad 2 n = [digit_char (n div 10), digit_char (n mod 10)]"
  by (cases "n < 10") (simp_all add: zero_pad_def dec_lt10 dec_lt100 digit_char_def)

lemma replicate_2: "replicate 2 c = [c, c]"
  by (simp add: numeral_2_eq_2)

lemma replicate_3: "replicate 3 c = [c, c, c]"
  by (simp add: numeral_3_eq_3)

lemma zero_pad4:
  assumes n: "n < 10000"
  shows "zero_pad 4 n = [digit_char (n div 1000), digit_char (n div 100 mod 10),
                         digit_char (n div 10 mod 10), digit_char (n mod 10)]"
proof -
  consider "n < 10" | "10 \<le> n" "n < 100" | "100 \<le> n" "n < 1000" | "1000 \<le> n"
    by linarith
  then show ?thesis
  proof cases
    case 1 then show ?thesis by (simp add: zero_pad_def dec_lt10 digit_char_def replicate_3)
  next
    case 2 then show ?thesis by (simp add: zero_pad_def dec_lt100 digit_char_def replicate_2)
  next
    case 3 then show ?thesis by (simp add: zero_pad_def dec_lt1000 digit_char_def)
  next
    case 4 with n show ?thesis by (simp add: zero_pad_def dec_lt10000)
  qed
qed

lemma valid_date_bounds:
  "valid_date d \<Longrightarrow> 1 \<le> year d \<and> year d < 10000 \<and> 1 \<le> month d \<and> month d \<le> 12 \<and> 1 \<le> day d \<and> day d \<le> 31"
  by (auto simp: valid_date_def MINYEAR_def MAXYEAR_def days_in_month_def split: if_splits)

lemma isoformat_valid:
  "valid_date d \<Longrightarrow>
   isoformat d =
     [digit_char (year d div 1000), digit_char (year d div 100 mod 10),
      digit_char (year d div 10 mod 10), digit_char (year d mod 10), CHR ''-'',
      digit_char (month d div 10), digit_char (month d mod 10), CHR ''-'',
      digit_char (day d div 10), digit_char (day d mod 10)]"
  using valid_date_bounds [of d] by (simp add: isoformat_def zero_pad2 zero_pad4)

lemma str_le_digit_cons:
  "a < 10 \<Longrightarrow> b < 10 \<Longrightarrow>
   str_le (digit_char a # xs) (digit_char b # ys) \<longleftrightarrow> a < b \<or> (a = b \<and> str_le xs ys)"
  by (simp add: of_char_digit_char digit_char_inj)

lemma base_less:
  "r < k \<Longrightarrow> r' < k \<Longrightarrow> (k::nat) * q + r < k * q' + r' \<longleftrightarrow> q < q' \<or> (q = q' \<and> r < r')"
proof (cases "q < q'")
  case True
  assume r: "r < k" "r' < k"
  from True have "q + 1 \<le> q'" by simp
  then have "k * (q + 1) \<le> k * q'" by (rule mult_le_mono2)
  with r True show ?thesis by (simp add: algebra_simps)
next
  case False
  assume r: "r < k" "r' < k"
  show ?thesis
  proof (cases "q = q'")
    case True then show ?thesis by simp
  next
    case neq: False
    with False have "q' + 1 \<le> q" by simp
    then have "k * (q' + 1) \<le> k * q" by (rule mult_le_mono2)
    with r False neq show ?thesis by (simp add: algebra_simps)
  qed
qed

lemma digits_less:
  "0 < k \<Longrightarrow> (a::nat) < b \<longleftrightarrow> a div k < b div k \<or> (a div k = b div k \<and> a mod k < b mod k)"
  using base_less [of "a mod k" k "b mod k" "a div k" "b div k"] by simp

lemma digits_eq:
  "(a::nat) = b \<longleftrightarrow> a div k = b div k \<and> a mod k = b mod k"
  by (metis div_mult_mod_eq)

lemma two_digits_less:
  "(a::nat) < b \<longleftrightarrow> a div 10 < b div 10 \<or> (a div 10 = b div 10 \<and> a mod 10 < b mod 10)"
  by (rule digits_less) simp

lemma two_digits_eq:
  "(a::nat) = b \<longleftrightarrow> a div 10 = b div 10 \<and> a mod 10 = b mod 10"
  by (rule digits_eq)

lemma str_le_block2:
  assumes "a < 100" "b < 100"
  shows "str_le (digit_char (a div 10) # digit_char (a mod 10) # xs)
                (digit_char (b div 10) # digit_char (b mod 10) # ys)
         \<longleftrightarrow> a < b \<or> (a = b \<and> str_le xs ys)"
proof -
  from assms have "a div 10 < 10" "b div 10 < 10" by simp_all
  then have "str_le (digit_char (a div 10) # digit_char (a mod 10) # xs)
                (digit_char (b div 10) # digit_char (b mod 10) # ys)
     \<longleftrightarrow> a div 10 < b div 10 \<or>
         (a div 10 = b div 10 \<and> (a mod 10 < b mod 10 \<or> (a mod 10 = b mod 10 \<and> str_le xs ys)))"
    by (simp only: str_le_digit_cons mod_less_divisor zero_less_numeral)
  also have "\<dots> \<longleftrightarrow> a < b \<or> (a = b \<and> str_le xs ys)"
    using two_digits_less [of a b] two_digits_eq [of a b] by blast
  finally show ?thesis .
qed

lemma four_digits_split:
  "(n::nat) div 1000 = n div 100 div 10" "n div 100 mod 10 = (n div 100) mod 10"
  "n div 10 mod 10 = n mod 100 div 10" "n mod 10 = n mod 100 mod 10"
proof -
  show "n div 1000 = n div 100 div 10" by (simp add: div_mult2_eq [symmetric])
  show "n div 100 mod 10 = (n div 100) mod 10" by simp
  have "n mod 100 = n mod (10 * 10)" by simp
  also have "\<dots> = 10 * (n div 10 mod 10) + n mod 10" by (rule mod_mult2_eq)
  finally have e: "n mod 100 = 10 * (n div 10 mod 10) + n mod 10" .
  show "n div 10 mod 10 = n mod 100 div 10" by (simp add: e)
  show "n mod 10 = n mod 100 mod 10" by (simp add: e)
qed

lemma hundreds_less:
  "(a::nat) < b \<longleftrightarrow> a div 100 < b div 100 \<or> (a div 100 = b div 100 \<and> a mod 100 < b mod 100)"
  by (rule digits_less) simp

lemma hundreds_eq:
  "(a::nat) = b \<longleftrightarrow> a div 100 = b div 100 \<and> a mod 100 = b mod 100"
  by (rule digits_eq)

lemma str_le_block4:
  assumes "a < 10000" "b < 10000"
  shows "str_le (digit_char (a div 1000) # digit_char (a div 100 mod 10) #
                 digit_char (a div 10 mod 10) # digit_char (a mod 10) # xs)
                (digit_char (b div 1000) # digit_char (b div 100 mod 10) #
                 digit_char (b div 10 mod 10) # digit_char (b mod 10) # ys)
         \<longleftrightarrow> a < b \<or> (a = b \<and> str_le xs ys)"
proof -
  from assms have hi: "a div 100 < 100" "b div 100 < 100" by simp_all
  have lo: "a mod 100 < 100" "b mod 100 < 100" by simp_all
  have "str_le (digit_char (a div 1000) # digit_char (a div 100 mod 10) #
                 digit_char (a div 10 mod 10) # digit_char (a mod 10) # xs)
                (digit_char (b div 1000) # digit_char (b div 100 mod 10) #
                 digit_char (b div 10 mod 10) # digit_char (b mod 10) # ys)
     \<longleftrightarrow> str_le (digit_char (a div 100 div 10) # digit_char (a div 100 mod 10) #
                 digit_char (a mod 100 div 10) # digit_char (a mod 100 mod 10) # xs)
                (digit_char (b div 100 div 10) # digit_char (b div 100 mod 10) #
                 digit_char (b mod 100 div 10) # digit_char (b mod 100 mod 10) # ys)"
    using four_digits_split [of a] four_digits_split [of b] by simp
  also have "\<dots> \<longleftrightarrow> a div 100 < b div 100 \<or>
      (a div 100 = b div 100 \<and> (a mod 100 < b mod 100 \<or> (a mod 100 = b mod 100 \<and> str_le xs ys)))"
    by (simp only: str_le_block2 [OF hi] str_le_block2 [OF lo])
  also have "\<dots> \<longleftrightarrow> a < b \<or> (a = b \<and> str_le xs ys)"
    using hundreds_less [of a b] hundreds_eq [of a b] by blast
  finally show ?thesis .
qed

lemma str_le_hyphen: "str_le (CHR ''-'' # xs) (CHR ''-'' # ys) \<longleftrightarrow> str_le xs ys"
  by simp

lemma str_le_isoformat:
  assumes a: "valid_date a" and b: "valid_date b"
  shows "str_le (isoformat a) (isoformat b) \<longleftrightarrow> date_le a b"
proof -
  from valid_date_bounds [OF a] valid_date_bounds [OF b]
  have y: "year a < 10000" "year b < 10000"
    and m: "month a < 100" "month b < 100"
    and d: "day a < 100" "day b < 100" by simp_all
  have "str_le (isoformat a) (isoformat b) \<longleftrightarrow>
        year a < year b \<or> (year a = year b \<and>
          (month a < month b \<or> (month a = month b \<and>
            (day a < day b \<or> (day a = day b \<and> str_le [] [])))))"
    by (simp only: isoformat_valid [OF a] isoformat_valid [OF b]
          str_le_block4 [OF y] str_le_hyphen str_le_block2 [OF m] str_le_block2 [OF d])
  then show ?thesis
    by (auto simp: date_le_def)
qed

lemma isoformat_inj:
  assumes a: "valid_date a" and b: "valid_date b" and eq: "isoformat a = isoformat b"
  shows "a = b"
proof -
  from eq have "str_le (isoformat a) (isoformat b)" "str_le (isoformat b) (isoformat a)"
    by (simp_all add: str_le_isoformat [OF b b] date_le_def)
  then have "date_le a b" "date_le b a"
    by (simp_all add: str_le_isoformat [OF a b] str_le_isoformat [OF b a])
  then show ?thesis
    by (cases a; cases b) (auto simp: date_le_def)
qed

lemma split_on_field:
  "c \<notin> set w \<Longrightarrow> split_on c (w @ c # rest) = w # split_on c rest"
  by (induction w) (auto split: list.splits)

lemma split_on_last: "c \<notin> set w \<Longrightarrow> split_on c w = [w]"
  by (induction w) (auto split: list.splits)

lemma split_on_three:
  assumes "c \<notin> set a" "c \<notin> set b" "c \<notin> set d"
  shows "split_on c (a @ c # b @ c # d) = [a, b, d]"
  using assms by (simp add: split_on_field split_on_last)

lemma int_of_digits2:
  "a < 10 \<Longrightarrow> b < 10 \<Longrightarrow> int_of_digits [digit_char a, digit_char b] = 10 * a + b"
  by (simp add: int_of_digits_def digit_val_digit_char)

lemma int_of_digits4:
  "a < 10 \<Longrightarrow> b < 10 \<Longrightarrow> c < 10 \<Longrightarrow> d < 10 \<Longrightarrow>
   int_of_digits [digit_char a, digit_char b, digit_char c, digit_char d] =
     1000 * a + 100 * b + 10 * c + d"
  by (simp add: int_of_digits_def digit_val_digit_char)

lemma horner4: "(n::nat) = 10 * (10 * (10 * a + b) + c) + d \<Longrightarrow> 1000 * a + 100 * b + 10 * c + d = n"
  by simp

lemma year_digits:
  "1000 * ((n::nat) div 1000) + 100 * (n div 100 mod 10) + 10 * (n div 10 mod 10) + n mod 10 = n"
proof -
  have a: "n = 10 * (n div 10) + n mod 10" by simp
  have b: "n div 10 = 10 * (n div 100) + n div 10 mod 10"
    using div_mult_mod_eq [of "n div 10" 10] by (simp add: div_mult2_eq [symmetric] mult.commute)
  have c: "n div 100 = 10 * (n div 1000) + n div 100 mod 10"
    using div_mult_mod_eq [of "n div 100" 10] by (simp add: div_mult2_eq [symmetric] mult.commute)
  have "n = 10 * (10 * (10 * (n div 1000) + n div 100 mod 10) + n div 10 mod 10) + n mod 10"
    using a b c by presburger
  then show ?thesis by (rule horner4)
qed

lemma nonzero_digit_digit_char: "n < 10 \<Longrightarrow> nonzero_digit (digit_char n) \<longleftrightarrow> n \<noteq> 0"
  by (simp add: nonzero_digit_def is_digit_digit_char digit_char_zero)

lemma digit_char_concrete:
  "digit_char 0 = CHR ''0''" "digit_char 1 = CHR ''1''" "digit_char 2 = CHR ''2''"
  "digit_char 3 = CHR ''3''" "digit_char (Suc 0) = CHR ''1''"
  by (simp_all add: digit_char_def)

lemma month_field_pad:
  assumes "1 \<le> m" "m \<le> 12"
  shows "month_field [digit_char (m div 10), digit_char (m mod 10)]"
proof (cases "m < 10")
  case True
  with assms show ?thesis
    by (simp add: month_field_def digit_char_concrete nonzero_digit_digit_char)
next
  case False
  with assms have "m = 10 \<or> m = 11 \<or> m = 12" by arith
  then show ?thesis
    by (auto simp: month_field_def digit_char_concrete)
qed

lemma day_field_pad:
  assumes "1 \<le> d" "d \<le> 31"
  shows "day_field [digit_char (d div 10), digit_char (d mod 10)]"
proof -
  from assms consider "d < 10" | "10 \<le> d" "d < 20" | "20 \<le> d" "d < 30" | "d = 30" | "d = 31"
    by arith
  then show ?thesis
  proof cases
    case 1
    with assms show ?thesis
      by (simp add: day_field_def digit_char_concrete nonzero_digit_digit_char)
  next
    case 2
    then have "d div 10 = 1" by simp
    then show ?thesis
      by (simp add: day_field_def digit_char_concrete is_digit_digit_char)
  next
    case 3
    then have "d div 10 = 2" by simp
    then show ?thesis
      by (simp add: day_field_def digit_char_concrete is_digit_digit_char)
  next
    case 4 then show ?thesis
      by (simp add: day_field_def digit_char_concrete)
  next
    case 5 then show ?thesis
      by (simp add: day_field_def digit_char_concrete)
  qed
qed

lemma strptime_isoformat:
  assumes v: "valid_date d"
  shows "strptime_date (isoformat d) = Inr d"
proof -
  let ?ys = "[digit_char (year d div 1000), digit_char (year d div 100 mod 10),
              digit_char (year d div 10 mod 10), digit_char (year d mod 10)]"
  let ?ms = "[digit_char (month d div 10), digit_char (month d mod 10)]"
  let ?ds = "[digit_char (day d div 10), digit_char (day d mod 10)]"
  from valid_date_bounds [OF v]
  have y: "year d < 10000" and m: "1 \<le> month d" "month d \<le> 12"
    and dd: "1 \<le> day d" "day d \<le> 31" by simp_all
  from y have y1: "year d div 1000 < 10" by simp
  from m have m1: "month d div 10 < 10" by simp
  from dd have d1: "day d div 10 < 10" by simp
  have iso: "isoformat d = ?ys @ CHR ''-'' # ?ms @ CHR ''-'' # ?ds"
    by (simp add: isoformat_valid [OF v])
  have nh: "CHR ''-'' \<notin> set ?ys" "CHR ''-'' \<notin> set ?ms" "CHR ''-'' \<notin> set ?ds"
    using y1 m1 d1 by (simp_all add: digit_char_not_hyphen [THEN not_sym])
  have sp: "split_on (CHR ''-'') (isoformat d) = [?ys, ?ms, ?ds]"
    unfolding iso by (rule split_on_three [OF nh])
  have yf: "year_field ?ys"
    using y1 by (simp add: year_field_def is_digit_digit_char)
  have mf: "month_field ?ms" by (rule month_field_pad [OF m])
  have df: "day_field ?ds" by (rule day_field_pad [OF dd])
  have fd: "filter is_digit ?ds = ?ds"
    using d1 by (simp add: is_digit_digit_char)
  have yv: "int_of_digits ?ys = year d"
    using y1 by (simp add: int_of_digits4 year_digits)
  have mv: "int_of_digits ?ms = month d"
    using m1 by (simp add: int_of_digits2)
  have dv: "int_of_digits ?ds = day d"
    using d1 by (simp add: int_of_digits2)
  show ?thesis
    unfolding strptime_date_def sp
    using v by (simp only: list.case yf mf df fd yv mv dv Let_def date.collapse simp_thms if_True)
qed

lemma date_le_refl: "date_le d d"
  by (simp add: date_le_def)

lemma date_le_trans: "date_le a b \<Longrightarrow> date_le b c \<Longrightarrow> date_le a c"
  by (auto simp: date_le_def)

lemma date_le_antisym: "date_le a b \<Longrightarrow> date_le b a \<Longrightarrow> a = b"
  by (cases a; cases b) (auto simp: date_le_def)

lemma date_le_total: "date_le a b \<or> date_le b a"
  by (auto simp: date_le_def)

lemma date_le_next_day: "date_le d (next_day d)"
  by (simp add: date_le_def next_day_def)

lemma next_day_neq: "next_day d \<noteq> d"
  by (cases d) (simp add: next_day_def)

lemma not_date_le_next_day: "\<not> date_le (next_day d) d"
  using date_le_antisym [OF date_le_next_day, of d] next_day_neq [of d] by auto

lemma days_in_month_pos: "Suc 0 \<le> days_in_month y m"
  by (simp add: days_in_month_def)

lemma valid_next_day:
  assumes v: "valid_date d" and nm: "d \<noteq> date_max"
  shows "valid_date (next_day d)"
proof -
  from v have b: "1 \<le> year d" "year d \<le> 9999" "1 \<le> month d" "month d \<le> 12"
      "1 \<le> day d" "day d \<le> days_in_month (year d) (month d)"
    by (simp_all add: valid_date_def MINYEAR_def MAXYEAR_def)
  show ?thesis
  proof (cases "day d < days_in_month (year d) (month d)")
    case True
    with b show ?thesis
      by (simp add: next_day_def valid_date_def MINYEAR_def MAXYEAR_def)
  next
    case last: False
    show ?thesis
    proof (cases "month d < 12")
      case True
      with b last show ?thesis
        by (simp add: next_day_def valid_date_def MINYEAR_def MAXYEAR_def days_in_month_pos)
    next
      case False
      with b have m12: "month d = 12" by simp
      with b last have d31: "day d = 31" by (simp add: days_in_month_def)
      from nm m12 d31 have "year d \<noteq> 9999"
        by (cases d) (simp add: date_max_def MAXYEAR_def)
      with b last False show ?thesis
        by (simp add: next_day_def valid_date_def MINYEAR_def MAXYEAR_def days_in_month_def)
    qed
  qed
qed

lemma date_add_days_0: "date_add_days d 0 = Inr d"
  by (simp add: date_add_days.simps)

lemma date_add_days_Suc:
  "date_add_days d (Suc n) =
     (if d = date_max then Inl OverflowError else date_add_days (next_day d) n)"
  by (subst date_add_days.simps) simp

lemma date_add_days_1: "d \<noteq> date_max \<Longrightarrow> date_add_days d 1 = Inr (next_day d)"
  using date_add_days_Suc [of d 0] by (simp add: date_add_days_0)

lemma date_add_days_error: "date_add_days d n = Inl e \<Longrightarrow> e = OverflowError"
  by (induction n arbitrary: d) (auto simp: date_add_days_0 date_add_days_Suc split: if_splits)

lemma date_add_days_valid:
  "valid_date d \<Longrightarrow> date_add_days d n = Inr d' \<Longrightarrow> valid_date d'"
proof (induction n arbitrary: d)
  case 0
  then show ?case by (simp add: date_add_days_0)
next
  case (Suc n)
  from Suc.prems have nm: "d \<noteq> date_max" and r: "date_add_days (next_day d) n = Inr d'"
    by (auto simp: date_add_days_Suc split: if_splits)
  from Suc.prems(1) nm have "valid_date (next_day d)" by (rule valid_next_day)
  then show ?case using r by (rule Suc.IH)
qed

lemma date_add_days_le: "date_add_days d n = Inr d' \<Longrightarrow> date_le d d'"
proof (induction n arbitrary: d)
  case 0
  then show ?case by (simp add: date_add_days_0 date_le_refl)
next
  case (Suc n)
  then have "date_le (next_day d) d'"
    by (auto simp: date_add_days_Suc split: if_splits)
  with date_le_next_day [of d] show ?case by (rule date_le_trans)
qed

lemma date_add_days_lt:
  assumes "date_add_days d n = Inr d'" "0 < n"
  shows "\<not> date_le d' d"
proof -
  from assms obtain k where n: "n = Suc k" by (cases n) auto
  with assms have "date_add_days (next_day d) k = Inr d'"
    by (auto simp: date_add_days_Suc split: if_splits)
  then have "date_le (next_day d) d'" by (rule date_add_days_le)
  then show ?thesis
    using not_date_le_next_day [of d] date_le_trans [of "next_day d" d' d] by blast
qed

lemma date_add_days_prefix:
  "date_add_days d n = Inr d' \<Longrightarrow> m \<le> n \<Longrightarrow> \<exists>d''. date_add_days d m = Inr d''"
proof (induction n arbitrary: d m)
  case 0
  then show ?case by simp
next
  case (Suc n)
  show ?case
  proof (cases m)
    case 0
    then show ?thesis by (simp add: date_add_days_0)
  next
    case (Suc k)
    with Suc.prems have "d \<noteq> date_max" "date_add_days (next_day d) n = Inr d'" "k \<le> n"
      by (auto simp: date_add_days_Suc split: if_splits)
    with Suc.IH [of "next_day d" k] Suc show ?thesis
      by (simp add: date_add_days_Suc)
  qed
qed



lemma days_before_year_arith:
  fixes a b c e4 e100 e400 z :: nat
  assumes "b \<le> a" "e100 \<le> e4"
  shows "Suc z * 365 + (a + e4) - (b + e100) + (c + e400) =
         (z * 365 + a - b + c) + 365 + (e4 - e100) + e400"
  using assms by simp

lemma days_before_year_Suc:
  assumes y: "1 \<le> y"
  shows "days_before_year (Suc y) = days_before_year y + (if is_leap y then 366 else 365)"
proof -
  from y obtain z where z: "y = Suc z" by (cases y) auto
  define e4 :: nat where "e4 = (if y mod 4 = 0 then 1 else 0)"
  define e100 :: nat where "e100 = (if y mod 100 = 0 then 1 else 0)"
  define e400 :: nat where "e400 = (if y mod 400 = 0 then 1 else 0)"
  have le: "z div 100 \<le> z div 4"
    by (rule div_le_mono2) simp_all
  have d4: "y div 4 = z div 4 + e4"
    unfolding z e4_def by (simp add: div_Suc)
  have d100: "y div 100 = z div 100 + e100"
    unfolding z e100_def by (simp add: div_Suc)
  have d400: "y div 400 = z div 400 + e400"
    unfolding z e400_def by (simp add: div_Suc)
  have "(4::nat) dvd 100" "(100::nat) dvd 400" by simp_all
  then have m1: "y mod 100 = 0 \<Longrightarrow> y mod 4 = 0" and m2: "y mod 400 = 0 \<Longrightarrow> y mod 100 = 0"
    by (meson dvd_trans mod_eq_0_iff_dvd)+
  from m1 have e1: "e100 \<le> e4" by (simp add: e4_def e100_def)
  have "days_before_year (Suc y) = Suc z * 365 + (z div 4 + e4) - (z div 100 + e100) + (z div 400 + e400)"
    by (simp only: days_before_year_def diff_Suc_1 d4 d100 d400 z [symmetric])
  also have "\<dots> = (z * 365 + z div 4 - z div 100 + z div 400) + 365 + (e4 - e100) + e400"
    by (rule days_before_year_arith [OF le e1])
  also have "z * 365 + z div 4 - z div 100 + z div 400 = days_before_year y"
    by (simp add: days_before_year_def z)
  finally have "days_before_year (Suc y) = days_before_year y + (365 + (e4 - e100) + e400)"
    by (simp add: add.assoc)
  moreover have "365 + (e4 - e100) + e400 = (if is_leap y then 366 else (365::nat))"
    using m1 m2 by (auto simp: e4_def e100_def e400_def is_leap_def)
  ultimately show ?thesis by simp
qed

lemma month_cases:
  "1 \<le> m \<Longrightarrow> m \<le> 12 \<Longrightarrow>
   m = 1 \<or> m = 2 \<or> m = 3 \<or> m = 4 \<or> m = 5 \<or> m = 6 \<or> m = 7 \<or> m = 8 \<or> m = 9 \<or>
   m = 10 \<or> m = 11 \<or> m = (12::nat)"
  by arith

lemma days_before_month_step:
  assumes "1 \<le> m" "m < 12"
  shows "days_before_month y (m + 1) = days_before_month y m + days_in_month y m"
proof -
  from assms have "1 \<le> m" "m \<le> 12" "m \<noteq> 12" by simp_all
  with month_cases [of m] have
    "m = 1 \<or> m = 2 \<or> m = 3 \<or> m = 4 \<or> m = 5 \<or> m = 6 \<or> m = 7 \<or> m = 8 \<or> m = 9 \<or> m = 10 \<or> m = 11"
    by blast
  then show ?thesis
    by (elim disjE) (simp_all add: days_before_month_def days_in_month_def)
qed

lemma toordinal_next_day:
  assumes v: "valid_date d"
  shows "toordinal (next_day d) = toordinal d + 1"
proof -
  from v have b: "1 \<le> year d" "1 \<le> month d" "month d \<le> 12"
      "1 \<le> day d" "day d \<le> days_in_month (year d) (month d)"
    by (simp_all add: valid_date_def MINYEAR_def MAXYEAR_def)
  show ?thesis
  proof (cases "day d < days_in_month (year d) (month d)")
    case True
    then show ?thesis by (simp add: next_day_def toordinal_def)
  next
    case last: False
    with b have dd: "day d = days_in_month (year d) (month d)" by simp
    show ?thesis
    proof (cases "month d < 12")
      case True
      with b have "days_before_month (year d) (month d + 1) =
          days_before_month (year d) (month d) + days_in_month (year d) (month d)"
        by (intro days_before_month_step) simp_all
      with True last dd show ?thesis by (simp add: next_day_def toordinal_def)
    next
      case False
      with b have m12: "month d = 12" by simp
      have "days_before_year (Suc (year d)) =
          days_before_year (year d) + (if is_leap (year d) then 366 else 365)"
        using b(1) by (rule days_before_year_Suc)
      with False last dd m12 show ?thesis
        by (simp add: next_day_def toordinal_def days_before_month_def days_in_month_def)
    qed
  qed
qed

lemma date_add_days_ordinal:
  "valid_date d \<Longrightarrow> date_add_days d n = Inr d' \<Longrightarrow> toordinal d' = toordinal d + n"
proof (induction n arbitrary: d)
  case 0
  then show ?case by (simp add: date_add_days_0)
next
  case (Suc n)
  from Suc.prems have nm: "d \<noteq> date_max" and r: "date_add_days (next_day d) n = Inr d'"
    by (auto simp: date_add_days_Suc split: if_splits)
  from Suc.prems(1) nm have "valid_date (next_day d)" by (rule valid_next_day)
  from Suc.IH [OF this r] toordinal_next_day [OF Suc.prems(1)] show ?case by simp
qed

lemma date_add_days_in_range:
  "valid_date d \<Longrightarrow> toordinal d + n \<le> toordinal date_max \<Longrightarrow>
   \<exists>d'. date_add_days d n = Inr d'"
proof (induction n arbitrary: d)
  case 0
  then show ?case by (simp add: date_add_days_0)
next
  case (Suc n)
  from Suc.prems(2) have nm: "d \<noteq> date_max" by auto
  with Suc.prems(1) have v: "valid_date (next_day d)" by (rule valid_next_day)
  from Suc.prems toordinal_next_day [of d]
  have "toordinal (next_day d) + n \<le> toordinal date_max" by simp
  from Suc.IH [OF v this] nm show ?case by (simp add: date_add_days_Suc)
qed

lemma day_of_year_bound:
  assumes v: "valid_date d"
  shows "days_before_month (year d) (month d) + day d \<le> (if is_leap (year d) then 366 else 365)"
proof -
  from v have b: "1 \<le> month d" "month d \<le> 12" "day d \<le> days_in_month (year d) (month d)"
    by (simp_all add: valid_date_def)
  from month_cases [OF b(1,2)] b(3) show ?thesis
    by (elim disjE) (simp_all add: days_before_month_def days_in_month_def split: if_splits)
qed

lemma days_before_year_mono:
  "1 \<le> a \<Longrightarrow> a \<le> b \<Longrightarrow> days_before_year a \<le> days_before_year b"
proof (induction b)
  case 0
  then show ?case by simp
next
  case (Suc b)
  show ?case
  proof (cases "a = Suc b")
    case True
    then show ?thesis by simp
  next
    case False
    with Suc.prems have ab: "a \<le> b" and b1: "1 \<le> b" by simp_all
    from Suc.IH [OF Suc.prems(1) ab] days_before_year_Suc [OF b1] show ?thesis by simp
  qed
qed

lemma toordinal_date_max: "toordinal date_max = days_before_year 10000"
  by (simp add: toordinal_def date_max_def MAXYEAR_def days_before_year_def
        days_before_month_def is_leap_def)

lemma toordinal_le_max:
  assumes v: "valid_date d"
  shows "toordinal d \<le> toordinal date_max"
proof -
  from v have y: "1 \<le> year d" "year d \<le> 9999"
    by (simp_all add: valid_date_def MINYEAR_def MAXYEAR_def)
  have "toordinal d \<le> days_before_year (year d) + (if is_leap (year d) then 366 else 365)"
    using day_of_year_bound [OF v] by (simp add: toordinal_def)
  also have "\<dots> = days_before_year (Suc (year d))"
    using days_before_year_Suc [OF y(1)] by simp
  also have "\<dots> \<le> days_before_year 10000"
    using y by (intro days_before_year_mono) simp_all
  finally show ?thesis by (simp add: toordinal_date_max)
qed

lemma date_add_days_overflow:
  "valid_date d \<Longrightarrow> toordinal date_max < toordinal d + n \<Longrightarrow>
   date_add_days d n = Inl OverflowError"
proof (induction n arbitrary: d)
  case 0
  then have "toordinal date_max < toordinal d" by simp
  moreover have "toordinal d \<le> toordinal date_max" using "0.prems"(1) by (rule toordinal_le_max)
  ultimately show ?case by simp
next
  case (Suc n)
  show ?case
  proof (cases "d = date_max")
    case True
    then show ?thesis by (simp add: date_add_days_Suc)
  next
    case False
    with Suc.prems(1) have v: "valid_date (next_day d)" by (rule valid_next_day)
    from Suc.prems toordinal_next_day [of d]
    have "toordinal date_max < toordinal (next_day d) + n" by simp
    from Suc.IH [OF v this] False show ?thesis by (simp add: date_add_days_Suc)
  qed
qed

lemma days_after_0: "days_after d 0 = d"
  by (simp add: days_after.simps)

lemma days_after_Suc: "days_after d (Suc n) = days_after (next_day d) n"
  by (subst days_after.simps) simp

lemma days_after_1: "days_after d 1 = next_day d"
  using days_after_Suc [of d 0] by (simp add: days_after_0)

lemma date_add_days_days_after: "date_add_days d n = Inr d' \<Longrightarrow> d' = days_after d n"
  by (induction n arbitrary: d)
     (auto simp: date_add_days_0 date_add_days_Suc days_after_0 days_after_Suc split: if_splits)

lemma date_add_days_eq:
  assumes v: "valid_date d"
  shows "date_add_days d n =
           (if toordinal d + n \<le> toordinal date_max then Inr (days_after d n)
            else Inl OverflowError)"
proof (cases "toordinal d + n \<le> toordinal date_max")
  case True
  from date_add_days_in_range [OF v True] obtain d' where d': "date_add_days d n = Inr d'" ..
  with date_add_days_days_after [OF d'] True show ?thesis by simp
next
  case False
  then have "toordinal date_max < toordinal d + n" by simp
  from date_add_days_overflow [OF v this] False show ?thesis by simp
qed

lemma valid_days_after:
  assumes v: "valid_date d" and r: "toordinal d + n \<le> toordinal date_max"
  shows "valid_date (days_after d n)"
proof -
  from date_add_days_eq [OF v, of n] r have "date_add_days d n = Inr (days_after d n)" by simp
  with v show ?thesis by (rule date_add_days_valid)
qed

lemma toordinal_days_after:
  assumes v: "valid_date d" and r: "toordinal d + n \<le> toordinal date_max"
  shows "toordinal (days_after d n) = toordinal d + n"
proof -
  from date_add_days_eq [OF v, of n] r have "date_add_days d n = Inr (days_after d n)" by simp
  with v show ?thesis by (rule date_add_days_ordinal)
qed

lemma iso_string_isoformat: "valid_date d \<Longrightarrow> iso_string (isoformat d)"
  by (simp add: iso_string_def strptime_isoformat)

lemma strptime_date_valid: "strptime_date s = Inr d \<Longrightarrow> valid_date d"
  by (auto simp: strptime_date_def Let_def split: list.splits if_splits)

lemma iso_stringD: "iso_string s \<Longrightarrow> \<exists>d. valid_date d \<and> s = isoformat d \<and> strptime_date s = Inr d"
  by (auto simp: iso_string_def strptime_date_valid split: sum.splits)

lemma generate_schedule_isoformat:
  assumes v: "valid_date R"
  shows "generate_schedule (isoformat R) =
           (if toordinal R + 30 \<le> toordinal date_max
            then Inr (map (\<lambda>k. isoformat (days_after R k)) REVIEW_INTERVALS)
            else Inl OverflowError)"
proof (cases "toordinal R + 30 \<le> toordinal date_max")
  case True
  then have "toordinal R + 1 \<le> toordinal date_max" "toordinal R + 3 \<le> toordinal date_max"
    "toordinal R + 7 \<le> toordinal date_max" "toordinal R + 14 \<le> toordinal date_max" by simp_all
  with True show ?thesis
    by (simp add: generate_schedule_def strptime_isoformat [OF v] REVIEW_INTERVALS_def
          date_add_days_eq [OF v])
next
  case False
  then show ?thesis
    by (simp add: generate_schedule_def strptime_isoformat [OF v] REVIEW_INTERVALS_def
          date_add_days_eq [OF v] split: sum.splits)
qed

lemmas date_eval = isoformat_def zero_pad_def dec.simps digit_char_def next_day_def date_max_def
  MAXYEAR_def MINYEAR_def days_in_month_def is_leap_def date_add_days.simps valid_date_def
  strptime_date_def year_field_def month_field_def day_field_def nonzero_digit_def is_digit_def
  digit_val_def int_of_digits_def date_le_def toordinal_def days_before_year_def
  days_before_month_def days_after.simps get_today_str_def

lemma days_before_month_le:
  assumes "m \<le> m'" "1 \<le> m" "m' \<le> 12"
  shows "days_before_month y m \<le> days_before_month y m'"
  using assms
proof (induction rule: dec_induct)
  case base
  then show ?case by simp
next
  case (step n)
  then have "days_before_month y (n + 1) = days_before_month y n + days_in_month y n"
    by (intro days_before_month_step) simp_all
  with step show ?case by simp
qed

lemma days_before_month_mono:
  assumes "1 \<le> m" "m < m'" "m' \<le> 12"
  shows "days_before_month y m + days_in_month y m \<le> days_before_month y m'"
proof -
  from assms have "days_before_month y (m + 1) = days_before_month y m + days_in_month y m"
    by (intro days_before_month_step) simp_all
  moreover from assms have "days_before_month y (m + 1) \<le> days_before_month y m'"
    by (intro days_before_month_le) simp_all
  ultimately show ?thesis by simp
qed

lemma toordinal_strict:
  assumes a: "valid_date a" and b: "valid_date b" and lt: "date_le a b" "a \<noteq> b"
  shows "toordinal a < toordinal b"
proof -
  from a have va: "1 \<le> year a" "1 \<le> month a" "month a \<le> 12" "1 \<le> day a"
      "day a \<le> days_in_month (year a) (month a)"
    by (simp_all add: valid_date_def MINYEAR_def)
  from b have vb: "1 \<le> year b" "1 \<le> month b" "month b \<le> 12" "1 \<le> day b"
    by (simp_all add: valid_date_def MINYEAR_def)
  from lt consider "year a < year b"
    | "year a = year b" "month a < month b"
    | "year a = year b" "month a = month b" "day a < day b"
    by (cases a; cases b) (auto simp: date_le_def)
  then show ?thesis
  proof cases
    case 1
    have "toordinal a \<le> days_before_year (year a) + (if is_leap (year a) then 366 else 365)"
      using day_of_year_bound [OF a] by (simp add: toordinal_def)
    also have "\<dots> = days_before_year (Suc (year a))"
      using days_before_year_Suc [OF va(1)] by simp
    also have "\<dots> \<le> days_before_year (year b)"
      using 1 by (intro days_before_year_mono) simp_all
    also have "\<dots> < toordinal b"
      using vb by (simp add: toordinal_def)
    finally show ?thesis .
  next
    case 2
    have "days_before_month (year a) (month a) + days_in_month (year a) (month a)
          \<le> days_before_month (year a) (month b)"
      using va vb 2 by (intro days_before_month_mono) simp_all
    with va vb 2 show ?thesis by (simp add: toordinal_def)
  next
    case 3
    then show ?thesis by (simp add: toordinal_def)
  qed
qed

lemma date_le_toordinal:
  assumes a: "valid_date a" and b: "valid_date b"
  shows "date_le a b \<longleftrightarrow> toordinal a \<le> toordinal b"
proof
  assume "date_le a b"
  then show "toordinal a \<le> toordinal b"
    using toordinal_strict [OF a b] by (cases "a = b") auto
next
  assume le: "toordinal a \<le> toordinal b"
  show "date_le a b"
  proof (rule ccontr)
    assume n: "\<not> date_le a b"
    with date_le_total [of a b] have ba: "date_le b a" by simp
    from n have "b \<noteq> a" by (auto simp: date_le_refl)
    from toordinal_strict [OF b a ba this] le show False by simp
  qed
qed

lemma produced_iso: "produced s \<Longrightarrow> \<exists>d. valid_date d \<and> s = isoformat d"
proof (induction rule: produced.induct)
  case (today now)
  then show ?case by (auto simp: get_today_str_def)
next
  case (scheduled now sched s)
  from scheduled(2) generate_schedule_isoformat [OF scheduled(1)]
  have r: "toordinal now + 30 \<le> toordinal date_max"
    and sc: "sched = map (\<lambda>k. isoformat (days_after now k)) REVIEW_INTERVALS"
    by (auto simp: get_today_str_def split: if_splits)
  from scheduled(3) sc obtain k where k: "k \<in> set REVIEW_INTERVALS" and s: "s = isoformat (days_after now k)"
    by auto
  from k have "k \<le> 30" by (auto simp: REVIEW_INTERVALS_def)
  with r have "toordinal now + k \<le> toordinal date_max" by simp
  from valid_days_after [OF scheduled(1) this] s show ?case by blast
next
  case (postponed now tomorrow)
  then show ?case using date_add_days_valid by blast
qed

text \<open>
  C10. The due test and the other comparisons of dates are comparisons of ISO strings
  (\<open>str_le\<close> in \<open>due_check\<close>, equality in \<open>api_today_practiced\<close>). Any two strings the
  program produces (by \<open>get_today_str\<close>, by \<open>generate_schedule\<close> or by the postponement to
  tomorrow) are the ISO forms of two dates, and comparing the strings gives what comparing
  the dates gives: as triples of year, month and day, and as day numbers.
\<close>

theorem iso_strings_order_as_dates:
  assumes "produced s" and "produced t"
  shows "\<exists>a b. strptime_date s = Inr a \<and> strptime_date t = Inr b \<and>
               valid_date a \<and> valid_date b \<and> s = isoformat a \<and> t = isoformat b \<and>
               (str_le s t \<longleftrightarrow> date_le a b) \<and>
               (date_le a b \<longleftrightarrow> toordinal a \<le> toordinal b) \<and>
               (s = t \<longleftrightarrow> a = b)"
proof -
  from produced_iso [OF assms(1)] obtain a where a: "valid_date a" "s = isoformat a" by blast
  from produced_iso [OF assms(2)] obtain b where b: "valid_date b" "t = isoformat b" by blast
  have "s = t \<longleftrightarrow> a = b"
    using isoformat_inj [OF a(1) b(1)] a(2) b(2) by auto
  with a b show ?thesis
    by (simp add: strptime_isoformat str_le_isoformat date_le_toordinal)
qed

text \<open>The strings of 4 and 5 January 2024, produced as today and as tomorrow.\<close>

theorem iso_strings_order_as_dates_witness:
  "produced ''2024-01-04'' \<and> produced ''2024-01-05'' \<and>
   strptime_date ''2024-01-04'' = Inr (Date 2024 1 4) \<and>
   strptime_date ''2024-01-05'' = Inr (Date 2024 1 5) \<and>
   str_le ''2024-01-04'' ''2024-01-05'' \<and> date_le (Date 2024 1 4) (Date 2024 1 5) \<and>
   \<not> str_le ''2024-01-05'' ''2024-01-04'' \<and> \<not> date_le (Date 2024 1 5) (Date 2024 1 4)"
proof -
  have v: "valid_date (Date 2024 1 4)" by (simp add: date_eval)
  have p1: "produced ''2024-01-04''"
    using produced.today [OF v] by (simp add: date_eval)
  have "date_add_days (Date 2024 1 4) 1 = Inr (Date 2024 1 5)" by (simp add: date_eval)
  from produced.postponed [OF v this] have p2: "produced ''2024-01-05''"
    by (simp add: date_eval)
  from iso_strings_order_as_dates [OF p1 p2] iso_strings_order_as_dates [OF p2 p1] p1 p2
  show ?thesis by (auto simp: date_eval)
qed

subsection \<open>Text\<close>

lemma capital_codes:
  "map of_char capitals = [65..<(91::nat)] @ [192..<215] @ [216..<223]"
  by (simp add: capitals_def upt_rec_numeral)

lemma distinct_capitals: "distinct capitals"
proof -
  have "distinct (map (of_char :: char \<Rightarrow> nat) capitals)"
    unfolding capital_codes by (simp add: distinct_append)
  then show ?thesis by (rule distinct_map [THEN iffD1, THEN conjunct1])
qed

lemma is_upper_iff: "is_upper c \<longleftrightarrow> c \<in> set capitals"
proof -
  have "is_upper c \<longleftrightarrow> (of_char c :: nat) \<in> set ([65..<91] @ [192..<215] @ [216..<223])"
    unfolding is_upper_def set_append set_upt Un_iff atLeastLessThan_iff by auto
  also have "\<dots> \<longleftrightarrow> (of_char c :: nat) \<in> of_char ` set capitals"
    by (simp only: capital_codes [symmetric] set_map)
  also have "\<dots> \<longleftrightarrow> c \<in> set capitals"
    by (rule inj_image_mem_iff) (simp add: inj_on_def)
  finally show ?thesis .
qed

lemma small_codes: "map of_char smalls = map (\<lambda>c. of_char c + (32::nat)) capitals"
  by (simp add: capitals_def smalls_def)

lemma lower_char_upper: "is_upper c \<Longrightarrow> (of_char (lower_char c) :: nat) = of_char c + 32"
proof -
  assume "is_upper c"
  then have "c \<in> set capitals" by (simp only: is_upper_iff)
  then obtain i where i: "i < length capitals" "capitals ! i = c"
    by (auto simp: in_set_conv_nth)
  have len: "length capitals = length smalls" by (simp add: capitals_def smalls_def)
  from i(1) len have "i < length smalls" by simp
  from map_of_zip_nth [OF len distinct_capitals this] i(2)
  have "map_of (zip capitals smalls) c = Some (smalls ! i)" by simp
  then have "lower_char c = smalls ! i" by (simp add: lower_char_def)
  moreover from i len have "(of_char (smalls ! i) :: nat) = map of_char smalls ! i" by simp
  moreover from i have "map (\<lambda>c. of_char c + (32::nat)) capitals ! i = of_char c + 32" by simp
  ultimately show ?thesis by (simp only: small_codes)
qed

lemma lower_char_other: "\<not> is_upper c \<Longrightarrow> lower_char c = c"
proof -
  assume "\<not> is_upper c"
  with is_upper_iff [of c] have notin: "c \<notin> set capitals" by blast
  have len: "length capitals = length smalls" by (simp add: capitals_def smalls_def)
  have "map_of (zip capitals smalls) c = None"
    using notin by (rule iffD2 [OF map_of_zip_is_None [OF len]])
  then show ?thesis by (simp only: lower_char_def option.case)
qed

lemma lower_char_eq_iff: "lower_char x = lower_char y \<longleftrightarrow> case_variant x y"
proof -
  have inj: "\<And>a b. a = b \<longleftrightarrow> (of_char a :: nat) = of_char b" by simp
  consider "is_upper x" "is_upper y" | "is_upper x" "\<not> is_upper y"
    | "\<not> is_upper x" "is_upper y" | "\<not> is_upper x" "\<not> is_upper y" by blast
  then show ?thesis
  proof cases
    case 1
    then have "lower_char x = lower_char y \<longleftrightarrow> (of_char x :: nat) = of_char y"
      by (subst inj) (simp add: lower_char_upper)
    with 1 show ?thesis by (auto simp: case_variant_def is_upper_def)
  next
    case 2
    then have "lower_char x = lower_char y \<longleftrightarrow> (of_char x :: nat) + 32 = of_char y"
      by (subst inj) (simp add: lower_char_upper lower_char_other)
    with 2 show ?thesis by (auto simp: case_variant_def)
  next
    case 3
    then have "lower_char x = lower_char y \<longleftrightarrow> (of_char x :: nat) = of_char y + 32"
      by (subst inj) (simp add: lower_char_upper lower_char_other)
    with 3 show ?thesis by (auto simp: case_variant_def)
  next
    case 4
    then show ?thesis by (auto simp: case_variant_def lower_char_other)
  qed
qed

lemma lower_eq_iff: "map lower_char a = map lower_char b \<longleftrightarrow> equal_ignoring_case a b"
proof -
  have "map lower_char a = map lower_char b \<longleftrightarrow>
        list_all2 (=) (map lower_char a) (map lower_char b)"
    by (simp add: list.rel_eq)
  also have "\<dots> \<longleftrightarrow> list_all2 (\<lambda>x y. lower_char x = lower_char y) a b"
    by (simp add: list_all2_map1 list_all2_map2)
  finally show ?thesis
    by (simp add: equal_ignoring_case_def lower_char_eq_iff)
qed

lemma dropWhile_all: "list_all P xs \<Longrightarrow> dropWhile P (xs @ ys) = dropWhile P ys"
  by (induction xs) simp_all

lemma strip_by_trimmed: "trimmed_of ws raw (strip_by ws raw)"
proof -
  define a where "a = dropWhile ws raw"
  define l where "l = takeWhile ws raw"
  define r where "r = rev (takeWhile ws (rev a))"
  define t where "t = rev (dropWhile ws (rev a))"
  have raw: "raw = l @ a" by (simp add: l_def a_def)
  have "t @ r = rev (takeWhile ws (rev a) @ dropWhile ws (rev a))"
    by (simp only: t_def r_def rev_append)
  also have "\<dots> = rev (rev a)" by (simp only: takeWhile_dropWhile_id)
  finally have a: "a = t @ r" by simp
  have wl: "list_all ws l" unfolding l_def by (simp add: list_all_iff) (meson set_takeWhileD)
  have wr: "list_all ws r" unfolding r_def by (simp add: list_all_iff) (meson set_takeWhileD)
  have t: "t = strip_by ws raw" by (simp add: t_def a_def strip_by_def)
  have ends: "t = [] \<or> (\<not> ws (hd t) \<and> \<not> ws (last t))"
  proof (cases "t = []")
    case True then show ?thesis by simp
  next
    case False
    then have ne: "dropWhile ws (rev a) \<noteq> []" by (simp add: t_def)
    then have "\<not> ws (hd (dropWhile ws (rev a)))" by (rule hd_dropWhile)
    with ne have last: "\<not> ws (last t)" by (simp add: t_def last_rev)
    from False a have "a \<noteq> []" by auto
    then have "\<not> ws (hd a)" unfolding a_def by (rule hd_dropWhile)
    with False a have "\<not> ws (hd t)" by simp
    with last show ?thesis by simp
  qed
  from raw a wl wr ends t show ?thesis
    unfolding trimmed_of_def by (intro exI [of _ l] exI [of _ r]) simp
qed

lemma trimmed_unique:
  assumes "trimmed_of ws raw t"
  shows "t = strip_by ws raw"
proof -
  from assms obtain l r where raw: "raw = l @ t @ r" and l: "list_all ws l" and r: "list_all ws r"
    and ends: "t = [] \<or> (\<not> ws (hd t) \<and> \<not> ws (last t))"
    unfolding trimmed_of_def by blast
  show ?thesis
  proof (cases "t = []")
    case True
    from l r raw True have d: "dropWhile ws raw = []" by (simp add: list_all_iff)
    show ?thesis unfolding strip_by_def d by (simp add: True)
  next
    case False
    with ends have h: "\<not> ws (hd t)" and e: "\<not> ws (last t)" by simp_all
    from False obtain x xs where t: "t = x # xs" by (cases t) auto
    with h have "dropWhile ws (t @ r) = t @ r" by simp
    with l raw have d1: "dropWhile ws raw = t @ r" by (simp add: dropWhile_all)
    from r have rr: "list_all ws (rev r)" by (simp add: list_all_iff)
    from False e have "dropWhile ws (rev t) = rev t"
      by (cases "rev t") (auto simp: last_rev [symmetric] hd_rev)
    with rr have "dropWhile ws (rev (t @ r)) = rev t" by (simp add: dropWhile_all)
    with d1 show ?thesis by (simp add: strip_by_def)
  qed
qed

lemma trimmed_of_iff: "trimmed_of ws raw t \<longleftrightarrow> t = strip_by ws raw"
  using strip_by_trimmed trimmed_unique by blast

lemmas text_eval = answer_matches_def py_strip_def js_trim_def strip_by_def py_isspace_def
  js_isspace_def py_lower_def js_toLowerCase_def lower_char_def capitals_def smalls_def
  practice_correct_def




text \<open>
  C5 (as amended). For a registration date \<open>R\<close> whose thirtieth following day is still a
  date of \<^verbatim>\<open>datetime.date\<close> (up to 9999-12-01), \<open>generate_schedule\<close> returns the ISO strings
  of the dates 1, 3, 7, 14 and 30 days after \<open>R\<close>, in this order; each is a date, and its
  day number is that of \<open>R\<close> plus the interval.
\<close>

theorem generate_schedule_five_dates:
  assumes v: "valid_date R" and r: "toordinal R + 30 \<le> toordinal date_max"
  shows "generate_schedule (isoformat R) =
           Inr [isoformat (days_after R 1), isoformat (days_after R 3),
                isoformat (days_after R 7), isoformat (days_after R 14),
                isoformat (days_after R 30)] \<and>
         (\<forall>k \<in> set REVIEW_INTERVALS.
            valid_date (days_after R k) \<and> toordinal (days_after R k) = toordinal R + k)"
proof (intro conjI ballI)
  show "generate_schedule (isoformat R) =
           Inr [isoformat (days_after R 1), isoformat (days_after R 3),
                isoformat (days_after R 7), isoformat (days_after R 14),
                isoformat (days_after R 30)]"
    using r by (simp add: generate_schedule_isoformat [OF v] REVIEW_INTERVALS_def)
next
  fix k assume "k \<in> set REVIEW_INTERVALS"
  then have "k \<le> 30" by (auto simp: REVIEW_INTERVALS_def)
  with r have "toordinal R + k \<le> toordinal date_max" by simp
  then show "valid_date (days_after R k)" by (rule valid_days_after [OF v])
next
  fix k assume "k \<in> set REVIEW_INTERVALS"
  then have "k \<le> 30" by (auto simp: REVIEW_INTERVALS_def)
  with r have "toordinal R + k \<le> toordinal date_max" by simp
  then show "toordinal (days_after R k) = toordinal R + k" by (rule toordinal_days_after [OF v])
qed

text \<open>The example of the specification: registered on 2024-01-01.\<close>

theorem generate_schedule_five_dates_witness:
  "valid_date (Date 2024 1 1) \<and> toordinal (Date 2024 1 1) + 30 \<le> toordinal date_max \<and>
   generate_schedule ''2024-01-01'' =
     Inr [''2024-01-02'', ''2024-01-04'', ''2024-01-08'', ''2024-01-15'', ''2024-01-31'']"
proof -
  have v: "valid_date (Date 2024 1 1)" by (simp add: date_eval)
  have r: "toordinal (Date 2024 1 1) + 30 \<le> toordinal date_max" by (simp add: date_eval)
  have i: "isoformat (Date 2024 1 1) = ''2024-01-01''" by (simp add: date_eval)
  have d: "days_after (Date 2024 1 1) 1 = Date 2024 1 2" "days_after (Date 2024 1 1) 3 = Date 2024 1 4"
    "days_after (Date 2024 1 1) 7 = Date 2024 1 8" "days_after (Date 2024 1 1) 14 = Date 2024 1 15"
    "days_after (Date 2024 1 1) 30 = Date 2024 1 31"
    by (simp_all add: date_eval)
  have f: "isoformat (Date 2024 1 2) = ''2024-01-02''" "isoformat (Date 2024 1 4) = ''2024-01-04''"
    "isoformat (Date 2024 1 8) = ''2024-01-08''" "isoformat (Date 2024 1 15) = ''2024-01-15''"
    "isoformat (Date 2024 1 31) = ''2024-01-31''"
    by (simp_all add: isoformat_def zero_pad_def dec.simps digit_char_def)
  from generate_schedule_five_dates [OF v r, THEN conjunct1]
  have "generate_schedule ''2024-01-01'' =
     Inr [''2024-01-02'', ''2024-01-04'', ''2024-01-08'', ''2024-01-15'', ''2024-01-31'']"
    unfolding d i f .
  with v r show ?thesis by (intro conjI)
qed

text \<open>C5 as stated fails for a registration date in the last thirty days of the year 9999:
  the thirtieth day after it is no date of \<^verbatim>\<open>datetime.date\<close>, and no list is returned.\<close>

theorem generate_schedule_overflow_counterexample:
  "valid_date (Date 9999 12 15) \<and> isoformat (Date 9999 12 15) = ''9999-12-15'' \<and>
   generate_schedule ''9999-12-15'' = Inl OverflowError"
proof -
  have v: "valid_date (Date 9999 12 15)" by (simp add: date_eval)
  have i: "isoformat (Date 9999 12 15) = ''9999-12-15''" by (simp add: date_eval)
  have "\<not> toordinal (Date 9999 12 15) + 30 \<le> toordinal date_max" by (simp add: date_eval)
  with generate_schedule_isoformat [OF v] v i show ?thesis by simp
qed

subsection \<open>Reachable entries\<close>

lemma list_setitem_ok:
  "0 \<le> i \<Longrightarrow> i < int (length xs) \<Longrightarrow> list_setitem xs i v = Inr (xs[nat i := v])"
  by (simp add: list_setitem_def Let_def)

lemma list_setitem_Inr:
  "0 \<le> i \<Longrightarrow> list_setitem xs i v = Inr ys \<Longrightarrow> i < int (length xs) \<and> ys = xs[nat i := v]"
  by (auto simp: list_setitem_def Let_def split: if_splits)

lemma list_getitem_ok:
  "0 \<le> i \<Longrightarrow> i < int (length xs) \<Longrightarrow> list_getitem xs i = Inr (xs ! nat i)"
  by (simp add: list_getitem_def Let_def)

lemma answer_entry_correct:
  assumes "answer_matches answer (english e)"
  shows "answer_entry now later answer e =
           Inr (True, e\<lparr>next_review_index := next_review_index e + 1,
                        completed := (if int (length (schedule e)) \<le> next_review_index e + 1
                                      then True else completed e),
                        history := history e @ [correct_on (get_today_str now)]\<rparr>)"
  using assms by (simp add: answer_entry_def Let_def correct_on_def)

lemma answer_entry_incorrect:
  assumes "\<not> answer_matches answer (english e)"
  shows "answer_entry now later answer e =
           (case date_add_days later 1 of
              Inl err \<Rightarrow> Inl err
            | Inr tomorrow \<Rightarrow>
                (case list_setitem (schedule e) (next_review_index e) (isoformat tomorrow) of
                   Inl err \<Rightarrow> Inl err
                 | Inr sched' \<Rightarrow>
                     Inr (False, e\<lparr>schedule := sched',
                                   history := history e @ [incorrect_on (get_today_str now)]\<rparr>)))"
  using assms by (simp add: answer_entry_def Let_def incorrect_on_def split: sum.splits)

lemma answer_entry_incorrect_ok:
  assumes m: "\<not> answer_matches answer (english e)" and nm: "later \<noteq> date_max"
    and i: "0 \<le> next_review_index e" "next_review_index e < int (length (schedule e))"
  shows "answer_entry now later answer e =
           Inr (False, e\<lparr>schedule := (schedule e)[nat (next_review_index e) :=
                                                        isoformat (next_day later)],
                         history := history e @ [incorrect_on (get_today_str now)]\<rparr>)"
  unfolding answer_entry_incorrect [OF m] date_add_days_1 [OF nm] list_setitem_ok [OF i]
  by simp

lemma created_inv:
  assumes v: "valid_date now" and jp: "jp \<noteq> []" and en: "en \<noteq> []"
    and g: "generate_schedule (get_today_str now) = Inr sched"
  shows "entry_inv (new_entry i uid jp en (get_today_str now) sched)"
proof -
  from g generate_schedule_isoformat [OF v]
  have r: "toordinal now + 30 \<le> toordinal date_max"
    and sc: "sched = map (\<lambda>k. isoformat (days_after now k)) REVIEW_INTERVALS"
    by (auto simp: get_today_str_def split: if_splits)
  have len: "length sched = 5" by (simp add: sc REVIEW_INTERVALS_def)
  have "\<forall>k \<in> set REVIEW_INTERVALS. valid_date (days_after now k)"
  proof
    fix k assume "k \<in> set REVIEW_INTERVALS"
    then have "k \<le> 30" by (auto simp: REVIEW_INTERVALS_def)
    with r have "toordinal now + k \<le> toordinal date_max" by simp
    then show "valid_date (days_after now k)" by (rule valid_days_after [OF v])
  qed
  then have iso: "list_all iso_string sched"
    by (simp add: sc list_all_iff iso_string_isoformat)
  from v have reg: "iso_string (get_today_str now)"
    by (simp add: get_today_str_def iso_string_isoformat)
  from len iso reg jp en g show ?thesis
    by (simp add: entry_inv_def new_entry_def)
qed

lemma answered_inv:
  assumes inv: "entry_inv e" and v: "valid_date later"
    and a: "answer_entry now later answer e = Inr (c, e')"
  shows "entry_inv e'"
proof (cases "answer_matches answer (english e)")
  case True
  from a answer_entry_correct [OF True, of now later]
  have e': "e' = e\<lparr>next_review_index := next_review_index e + 1,
                   completed := (if int (length (schedule e)) \<le> next_review_index e + 1
                                 then True else completed e),
                   history := history e @ [correct_on (get_today_str now)]\<rparr>"
    by simp
  from inv show ?thesis
    unfolding e' entry_inv_def by auto
next
  case False
  from a answer_entry_incorrect [OF False, of now later]
  obtain tomorrow sched' where t: "date_add_days later 1 = Inr tomorrow"
    and s: "list_setitem (schedule e) (next_review_index e) (isoformat tomorrow) = Inr sched'"
    and e': "e' = e\<lparr>schedule := sched', history := history e @ [incorrect_on (get_today_str now)]\<rparr>"
    by (auto split: sum.splits)
  from inv have i0: "0 \<le> next_review_index e" by (simp add: entry_inv_def)
  from list_setitem_Inr [OF i0 s]
  have lt: "next_review_index e < int (length (schedule e))"
    and sc: "sched' = (schedule e)[nat (next_review_index e) := isoformat tomorrow]" by simp_all
  from date_add_days_valid [OF v t] have "iso_string (isoformat tomorrow)"
    by (rule iso_string_isoformat)
  with inv have iso: "list_all iso_string sched'"
    unfolding sc entry_inv_def list_all_iff by (auto dest: set_update_subset_insert [THEN subsetD])
  from inv obtain g where g: "generate_schedule (registered_at e) = Inr g"
    and gj: "\<forall>j<5. next_review_index e < int j \<longrightarrow> schedule e ! j = g ! j"
    by (auto simp: entry_inv_def)
  have "\<forall>j<5. next_review_index e < int j \<longrightarrow> sched' ! j = g ! j"
  proof (intro allI impI)
    fix j :: nat assume j: "j < 5" "next_review_index e < int j"
    with i0 have "j \<noteq> nat (next_review_index e)" by auto
    with gj j show "sched' ! j = g ! j" by (simp add: sc)
  qed
  with g inv iso show ?thesis
    unfolding e' entry_inv_def by (auto simp: sc)
qed

lemma reachable_inv: "reachable e \<Longrightarrow> entry_inv e"
proof (induction rule: reachable.induct)
  case (created now jp en sched i uid)
  then show ?case by (rule created_inv)
next
  case (answered e now later answer c e')
  from answered.IH answered.hyps(3,4) show ?case by (rule answered_inv)
next
  case (edited e jp en)
  then show ?case by (simp add: entry_inv_def)
qed

subsection \<open>The example entry\<close>

lemma example_schedule_generated: "generate_schedule ''2024-01-01'' = Inr example_schedule"
proof -
  have v: "valid_date (Date 2024 1 1)" by (simp add: date_eval)
  have r: "toordinal (Date 2024 1 1) + 30 \<le> toordinal date_max" by (simp add: date_eval)
  have i: "isoformat (Date 2024 1 1) = ''2024-01-01''" by (simp add: date_eval)
  have d: "days_after (Date 2024 1 1) 1 = Date 2024 1 2" "days_after (Date 2024 1 1) 3 = Date 2024 1 4"
    "days_after (Date 2024 1 1) 7 = Date 2024 1 8" "days_after (Date 2024 1 1) 14 = Date 2024 1 15"
    "days_after (Date 2024 1 1) 30 = Date 2024 1 31"
    by (simp_all add: date_eval)
  have f: "isoformat (Date 2024 1 2) = ''2024-01-02''" "isoformat (Date 2024 1 4) = ''2024-01-04''"
    "isoformat (Date 2024 1 8) = ''2024-01-08''" "isoformat (Date 2024 1 15) = ''2024-01-15''"
    "isoformat (Date 2024 1 31) = ''2024-01-31''"
    by (simp_all add: isoformat_def zero_pad_def dec.simps digit_char_def)
  have "generate_schedule (isoformat (Date 2024 1 1)) =
      Inr (map (\<lambda>k. isoformat (days_after (Date 2024 1 1) k)) REVIEW_INTERVALS)"
    using generate_schedule_isoformat [OF v] r by (simp only: if_True)
  then show ?thesis
    unfolding REVIEW_INTERVALS_def list.map d i f example_schedule_def .
qed

lemma reachable_example0: "reachable (example_entry example_schedule 0 [] False)"
proof -
  have v: "valid_date (Date 2024 1 1)" by (simp add: date_eval)
  have i: "get_today_str (Date 2024 1 1) = ''2024-01-01''" by (simp add: date_eval)
  have g: "generate_schedule (get_today_str (Date 2024 1 1)) = Inr example_schedule"
    unfolding i by (rule example_schedule_generated)
  have "reachable (new_entry 1 1 ''neko'' ''cat'' (get_today_str (Date 2024 1 1)) example_schedule)"
    by (rule reachable.created [OF v _ _ g]) simp_all
  then show ?thesis unfolding i new_entry_def example_entry_def .
qed

lemma example_correct:
  "answer_entry now later ''cat'' (example_entry s i h d) =
     Inr (True, example_entry s (i + 1) (h @ [correct_on (get_today_str now)])
                  (if int (length s) \<le> i + 1 then True else d))"
proof -
  have "answer_matches ''cat'' (english (example_entry s i h d))"
    by (simp add: example_entry_def text_eval)
  from answer_entry_correct [OF this, of now later] show ?thesis
    by (simp add: example_entry_def)
qed

lemma example_incorrect:
  assumes "later \<noteq> date_max" "0 \<le> i" "i < int (length s)"
  shows "answer_entry now later ''dog'' (example_entry s i h d) =
     Inr (False, example_entry (s[nat i := isoformat (next_day later)]) i
                   (h @ [incorrect_on (get_today_str now)]) d)"
proof -
  have "\<not> answer_matches ''dog'' (english (example_entry s i h d))"
    by (simp add: example_entry_def text_eval)
  from answer_entry_incorrect_ok [OF this, of later now] assms show ?thesis
    by (simp add: example_entry_def)
qed

lemma iso_2024_01:
  "get_today_str (Date 2024 1 2) = ''2024-01-02''" "get_today_str (Date 2024 1 3) = ''2024-01-03''"
  "get_today_str (Date 2024 1 4) = ''2024-01-04''" "isoformat (Date 2024 1 3) = ''2024-01-03''"
  "isoformat (Date 2024 1 5) = ''2024-01-05''" "get_today_str (Date 2024 1 8) = ''2024-01-08''"
  "get_today_str (Date 2024 1 15) = ''2024-01-15''" "get_today_str (Date 2024 1 31) = ''2024-01-31''"
  "isoformat (Date 2024 1 4) = ''2024-01-04''" "get_today_str (Date 2024 2 1) = ''2024-02-01''"
  "isoformat (Date 2024 1 6) = ''2024-01-06''"
  by (simp_all add: get_today_str_def isoformat_def zero_pad_def dec.simps digit_char_def)

lemma valid_2024:
  "valid_date (Date 2024 1 2)" "valid_date (Date 2024 1 3)" "valid_date (Date 2024 1 4)"
  "valid_date (Date 2024 1 8)" "valid_date (Date 2024 1 15)" "valid_date (Date 2024 1 31)"
  "valid_date (Date 2024 2 1)"
  "Date 2024 1 2 \<noteq> date_max" "Date 2024 1 4 \<noteq> date_max"
  "next_day (Date 2024 1 2) = Date 2024 1 3" "next_day (Date 2024 1 4) = Date 2024 1 5"
  "valid_date (Date 2024 1 5)" "Date 2024 1 5 \<noteq> date_max"
  "next_day (Date 2024 1 5) = Date 2024 1 6"
  by (simp_all add: valid_date_def MINYEAR_def MAXYEAR_def days_in_month_def is_leap_def
        date_max_def next_day_def)

text \<open>Wrong on 2024-01-02, right on 2024-01-03: tier 0 holds a postponed date, the index
  is 1.\<close>

lemma reachable_example_tier1:
  "reachable (example_entry
     [''2024-01-03'', ''2024-01-04'', ''2024-01-08'', ''2024-01-15'', ''2024-01-31''] 1
     [incorrect_on ''2024-01-02'', correct_on ''2024-01-03''] False)"
proof -
  have a: "answer_entry (Date 2024 1 2) (Date 2024 1 2) ''dog'' (example_entry example_schedule 0 [] False) =
      Inr (False, example_entry
        [''2024-01-03'', ''2024-01-04'', ''2024-01-08'', ''2024-01-15'', ''2024-01-31''] 0
        [incorrect_on ''2024-01-02''] False)"
    by (subst example_incorrect)
       (simp_all add: valid_2024 iso_2024_01 example_schedule_def del: One_nat_def)
  have r1: "reachable (example_entry
        [''2024-01-03'', ''2024-01-04'', ''2024-01-08'', ''2024-01-15'', ''2024-01-31''] 0
        [incorrect_on ''2024-01-02''] False)"
    by (rule reachable.answered [OF reachable_example0 valid_2024(1) valid_2024(1) a])
  have b: "answer_entry (Date 2024 1 3) (Date 2024 1 3) ''cat'' (example_entry
        [''2024-01-03'', ''2024-01-04'', ''2024-01-08'', ''2024-01-15'', ''2024-01-31''] 0
        [incorrect_on ''2024-01-02''] False) =
      Inr (True, example_entry
        [''2024-01-03'', ''2024-01-04'', ''2024-01-08'', ''2024-01-15'', ''2024-01-31''] 1
        [incorrect_on ''2024-01-02'', correct_on ''2024-01-03''] False)"
    by (subst example_correct) (simp add: iso_2024_01 del: One_nat_def)
  show ?thesis by (rule reachable.answered [OF r1 valid_2024(2) valid_2024(2) b])
qed

text \<open>Right at every tier: completed, with index 5.\<close>

lemma reachable_example_correct:
  assumes "reachable (example_entry s i h d)" "valid_date now"
  shows "reachable (example_entry s (i + 1) (h @ [correct_on (get_today_str now)])
                  (if int (length s) \<le> i + 1 then True else d))"
  by (rule reachable.answered [OF assms assms(2) example_correct])

lemma reachable_example_at1:
  "reachable (example_entry example_schedule 1 [correct_on ''2024-01-02''] False)"
  using reachable_example_correct [OF reachable_example0 valid_2024(1)]
  by (simp add: iso_2024_01 example_schedule_def del: One_nat_def)

lemma reachable_example_at4:
  "reachable (example_entry example_schedule 4
      [correct_on ''2024-01-02'', correct_on ''2024-01-04'', correct_on ''2024-01-08'',
       correct_on ''2024-01-15''] False)"
proof -
  note step = reachable_example_correct
  from step [OF reachable_example_at1 valid_2024(3)]
  have "reachable (example_entry example_schedule 2
      [correct_on ''2024-01-02'', correct_on ''2024-01-04''] False)"
    by (simp add: iso_2024_01 example_schedule_def del: One_nat_def)
  from step [OF this valid_2024(4)]
  have "reachable (example_entry example_schedule 3
      [correct_on ''2024-01-02'', correct_on ''2024-01-04'', correct_on ''2024-01-08''] False)"
    by (simp add: iso_2024_01 example_schedule_def del: One_nat_def)
  from step [OF this valid_2024(5)]
  show ?thesis
    by (simp add: iso_2024_01 example_schedule_def del: One_nat_def)
qed

lemma reachable_example_completed:
  "reachable (example_entry example_schedule 5
     [correct_on ''2024-01-02'', correct_on ''2024-01-04'', correct_on ''2024-01-08'',
      correct_on ''2024-01-15'', correct_on ''2024-01-31''] True)"
  using reachable_example_correct [OF reachable_example_at4 valid_2024(6)]
  by (simp add: iso_2024_01 example_schedule_def del: One_nat_def)

subsection \<open>Answers\<close>

lemma api_answer_found:
  assumes "find_entry eid uid db = Some e"
    "answer_entry now later (py_strip raw) e = Inr (c, e')"
  shows "api_answer now later uid eid (Some raw) db =
           (Inr \<lparr>resp_correct = c, resp_expected = english e', resp_completed = completed e'\<rparr>,
            save_entry e' db)"
  using assms by (simp add: api_answer_def)

lemma api_answer_raises:
  assumes "find_entry eid uid db = Some e" "answer_entry now later (py_strip raw) e = Inl err"
  shows "api_answer now later uid eid (Some raw) db = (Inl err, db)"
  using assms by (simp add: api_answer_def)

lemma find_entry_keys:
  "find_entry eid uid db = Some e \<Longrightarrow> entry_id e = eid \<and> user_id e = uid \<and> e \<in> set db"
  unfolding find_entry_def by (induction db) (auto split: if_splits)

text \<open>The committed row is the one the next query for the same id and user returns, and
  the rows with another id are as they were.\<close>

lemma find_entry_saved:
  assumes "find_entry eid uid db = Some e" "entry_id e' = eid" "user_id e' = uid"
  shows "find_entry eid uid (save_entry e' db) = Some e'"
  using assms unfolding find_entry_def save_entry_def
  by (induction db) (auto split: if_splits)

lemma save_entry_map:
  "entry_id e' = eid \<Longrightarrow> save_entry e' db = map (\<lambda>x. if entry_id x = eid then e' else x) db"
  by (simp add: save_entry_def)

text \<open>
  C2. A correct answer to a reachable entry at tier \<open>i\<close> commits, in the place of the row
  with the entry's id, the entry with the record of today with result \<^verbatim>\<open>correct\<close> appended
  to the history (one record more), the index moved to \<open>i + 1\<close> and the completion flag set
  exactly when the new index has reached 5: not completed for \<open>i < 4\<close>, completed for
  \<open>i = 4\<close>. The schedule and the other rows are untouched, and the next query for the
  entry returns the committed row.
\<close>

theorem correct_answer_advances:
  assumes re: "reachable e"
    and f: "find_entry eid uid db = Some e"
    and m: "answer_matches (py_strip raw) (english e)"
  shows "\<exists>e'. e' = e\<lparr>next_review_index := next_review_index e + 1,
                        completed := (4 \<le> next_review_index e),
                        history := history e @ [correct_on (get_today_str now)]\<rparr> \<and>
              api_answer now later uid eid (Some raw) db =
                (Inr \<lparr>resp_correct = True, resp_expected = english e,
                      resp_completed = completed e'\<rparr>,
                 map (\<lambda>x. if entry_id x = eid then e' else x) db) \<and>
              find_entry eid uid (snd (api_answer now later uid eid (Some raw) db)) = Some e' \<and>
              entry_id e' = eid \<and> user_id e' = uid \<and>
              history e' = history e @ [correct_on (get_today_str now)] \<and>
              length (history e') = length (history e) + 1 \<and>
              next_review_index e' = next_review_index e + 1 \<and>
              (completed e' \<longleftrightarrow> 5 \<le> next_review_index e') \<and>
              (next_review_index e < 4 \<longrightarrow> \<not> completed e') \<and>
              (next_review_index e = 4 \<longrightarrow> completed e') \<and>
              schedule e' = schedule e"
proof -
  define e' where "e' = e\<lparr>next_review_index := next_review_index e + 1,
                        completed := (4 \<le> next_review_index e),
                        history := history e @ [correct_on (get_today_str now)]\<rparr>"
  from reachable_inv [OF re] have inv: "length (schedule e) = 5"
    "completed e \<longleftrightarrow> 5 \<le> next_review_index e" by (simp_all add: entry_inv_def)
  from inv have c: "(if int (length (schedule e)) \<le> next_review_index e + 1
                     then True else completed e) = (4 \<le> next_review_index e)"
    by auto
  have a: "answer_entry now later (py_strip raw) e = Inr (True, e')"
    unfolding e'_def c [symmetric] by (rule answer_entry_correct [OF m])
  from find_entry_keys [OF f] have k: "entry_id e' = eid" "user_id e' = uid"
    by (simp_all add: e'_def)
  have r: "api_answer now later uid eid (Some raw) db =
          (Inr \<lparr>resp_correct = True, resp_expected = english e,
                resp_completed = completed e'\<rparr>,
           map (\<lambda>x. if entry_id x = eid then e' else x) db)"
    using api_answer_found [OF f a] save_entry_map [OF k(1), of db] by (simp add: e'_def)
  have q: "find_entry eid uid (snd (api_answer now later uid eid (Some raw) db)) = Some e'"
    using find_entry_saved [OF f k] save_entry_map [OF k(1), of db] by (simp add: r)
  have "(completed e' \<longleftrightarrow> 5 \<le> next_review_index e') \<and>
       (next_review_index e < 4 \<longrightarrow> \<not> completed e') \<and>
       (next_review_index e = 4 \<longrightarrow> completed e')"
    by (auto simp: e'_def)
  with r q k show ?thesis
    by (intro exI [of _ e']) (simp add: e'_def)
qed

lemma find_example: "find_entry 1 1 [example_entry s i h d] = Some (example_entry s i h d)"
  by (simp add: find_entry_def example_entry_def)

lemma match_example:
  "answer_matches (py_strip '' Cat '') (english (example_entry s i h d))"
  "\<not> answer_matches (py_strip ''dog'') (english (example_entry s i h d))"
  by (simp_all add: example_entry_def text_eval)

text \<open>The example entry at tier 4, answered \<^verbatim>\<open>" Cat "\<close> on 2024-01-31: the table then holds
  the entry with index 5, completed, with a fifth record.\<close>

theorem correct_answer_advances_witness:
  "reachable (example_entry example_schedule 4
              [correct_on ''2024-01-02'', correct_on ''2024-01-04'', correct_on ''2024-01-08'',
               correct_on ''2024-01-15''] False) \<and>
   api_answer (Date 2024 1 31) (Date 2024 1 31) 1 1 (Some '' Cat '')
           [example_entry example_schedule 4
              [correct_on ''2024-01-02'', correct_on ''2024-01-04'', correct_on ''2024-01-08'',
               correct_on ''2024-01-15''] False] =
         (Inr \<lparr>resp_correct = True, resp_expected = ''cat'', resp_completed = True\<rparr>,
          [example_entry example_schedule 5
              [correct_on ''2024-01-02'', correct_on ''2024-01-04'', correct_on ''2024-01-08'',
               correct_on ''2024-01-15'', correct_on ''2024-01-31''] True])"
proof -
  let ?E = "example_entry example_schedule 4
              [correct_on ''2024-01-02'', correct_on ''2024-01-04'', correct_on ''2024-01-08'',
               correct_on ''2024-01-15''] False"
  from correct_answer_advances [OF reachable_example_at4 find_example match_example(1),
         of "Date 2024 1 31" "Date 2024 1 31"]
  have "api_answer (Date 2024 1 31) (Date 2024 1 31) 1 1 (Some '' Cat '') [?E] =
         (Inr \<lparr>resp_correct = True, resp_expected = english ?E,
               resp_completed = completed (?E\<lparr>next_review_index := next_review_index ?E + 1,
                        completed := (4 \<le> next_review_index ?E),
                        history := history ?E @ [correct_on (get_today_str (Date 2024 1 31))]\<rparr>)\<rparr>,
          map (\<lambda>x. if entry_id x = 1 then ?E\<lparr>next_review_index := next_review_index ?E + 1,
                        completed := (4 \<le> next_review_index ?E),
                        history := history ?E @ [correct_on (get_today_str (Date 2024 1 31))]\<rparr>
                     else x) [?E])"
    by blast
  then have "api_answer (Date 2024 1 31) (Date 2024 1 31) 1 1 (Some '' Cat '') [?E] =
         (Inr \<lparr>resp_correct = True, resp_expected = ''cat'', resp_completed = True\<rparr>,
          [example_entry example_schedule 5
              [correct_on ''2024-01-02'', correct_on ''2024-01-04'', correct_on ''2024-01-08'',
               correct_on ''2024-01-15'', correct_on ''2024-01-31''] True])"
    unfolding iso_2024_01 by (simp add: example_entry_def)
  with reachable_example_at4 show ?thesis by (intro conjI)
qed

text \<open>
  C1 (as amended). A wrong answer to a reachable entry at tier \<open>i < 5\<close>, when the clock
  is read on a day before 9999-12-31, commits in the place of the row with the entry's id
  the entry with \<open>schedule[i]\<close> overwritten by the day after the second reading of the clock
  (tomorrow, when both readings fall on the same day) and the record of today with result
  \<^verbatim>\<open>incorrect\<close> appended to the history. The index stays at \<open>i\<close>, the entry stays not
  completed, every other schedule entry and every other row is as it was, and the next
  query for the entry returns the committed row. The entries of the later tiers \<open>j > i\<close>
  are still the dates \<open>generate_schedule\<close> computes from the registration date; those of
  earlier tiers may have been postponed before.
\<close>

theorem incorrect_answer_postpones_tier:
  assumes re: "reachable e" and v: "valid_date now" "valid_date later"
    and nm: "later \<noteq> date_max"
    and f: "find_entry eid uid db = Some e"
    and i: "next_review_index e = int i" "i < 5"
    and m: "\<not> answer_matches (py_strip raw) (english e)"
  shows "\<exists>e'. e' = e\<lparr>schedule := (schedule e)[i := isoformat (days_after later 1)],
                        history := history e @ [incorrect_on (get_today_str now)]\<rparr> \<and>
              api_answer now later uid eid (Some raw) db =
                (Inr \<lparr>resp_correct = False, resp_expected = english e,
                      resp_completed = False\<rparr>,
                 map (\<lambda>x. if entry_id x = eid then e' else x) db) \<and>
              find_entry eid uid (snd (api_answer now later uid eid (Some raw) db)) = Some e' \<and>
              entry_id e' = eid \<and> user_id e' = uid \<and>
              next_review_index e' = int i \<and>
              schedule e' ! i = isoformat (days_after later 1) \<and>
              (later = now \<longrightarrow> schedule e' ! i = isoformat (days_after now 1)) \<and>
              history e' = history e @ [incorrect_on (get_today_str now)] \<and>
              \<not> completed e' \<and>
              length (schedule e') = 5 \<and>
              (\<forall>j<5. j \<noteq> i \<longrightarrow> schedule e' ! j = schedule e ! j) \<and>
              (\<exists>g. generate_schedule (registered_at e') = Inr g \<and>
                   (\<forall>j<5. i < j \<longrightarrow> schedule e' ! j = g ! j))"
proof -
  define e' where "e' = e\<lparr>schedule := (schedule e)[i := isoformat (days_after later 1)],
                         history := history e @ [incorrect_on (get_today_str now)]\<rparr>"
  from reachable_inv [OF re] have len: "length (schedule e) = 5"
    and c: "completed e \<longleftrightarrow> 5 \<le> next_review_index e"
    and g: "\<exists>g. generate_schedule (registered_at e) = Inr g \<and>
           (\<forall>j<5. next_review_index e < int j \<longrightarrow> schedule e ! j = g ! j)"
    by (simp_all add: entry_inv_def)
  from i len have r: "0 \<le> next_review_index e" "next_review_index e < int (length (schedule e))"
    by simp_all
  from i have ni: "nat (next_review_index e) = i" by simp
  have a: "answer_entry now later (py_strip raw) e = Inr (False, e')"
    unfolding e'_def days_after_1 ni [symmetric]
    by (rule answer_entry_incorrect_ok [OF m nm r])
  from c i have nc: "\<not> completed e" by simp
  from find_entry_keys [OF f] have k: "entry_id e' = eid" "user_id e' = uid"
    by (simp_all add: e'_def)
  have res: "api_answer now later uid eid (Some raw) db =
          (Inr \<lparr>resp_correct = False, resp_expected = english e,
                resp_completed = False\<rparr>,
           map (\<lambda>x. if entry_id x = eid then e' else x) db)"
    using api_answer_found [OF f a] save_entry_map [OF k(1), of db] nc by (simp add: e'_def)
  have q: "find_entry eid uid (snd (api_answer now later uid eid (Some raw) db)) = Some e'"
    using find_entry_saved [OF f k] save_entry_map [OF k(1), of db] by (simp add: res)
  have t: "schedule e' ! i = isoformat (days_after later 1)"
    using i len by (simp add: e'_def)
  have o: "\<forall>j<5. j \<noteq> i \<longrightarrow> schedule e' ! j = schedule e ! j"
    by (simp add: e'_def)
  from g obtain gs where gs: "generate_schedule (registered_at e) = Inr gs"
    "\<forall>j<5. next_review_index e < int j \<longrightarrow> schedule e ! j = gs ! j" by blast
  have l: "\<exists>g. generate_schedule (registered_at e') = Inr g \<and>
           (\<forall>j<5. i < j \<longrightarrow> schedule e' ! j = g ! j)"
    using gs i by (intro exI [of _ gs]) (simp add: e'_def)
  have rest: "next_review_index e' = int i" "\<not> completed e'" "length (schedule e') = 5"
    "history e' = history e @ [incorrect_on (get_today_str now)]"
    using nc len i by (simp_all add: e'_def)
  have pin: "e' = e\<lparr>schedule := (schedule e)[i := isoformat (days_after later 1)],
                        history := history e @ [incorrect_on (get_today_str now)]\<rparr>"
    by (rule e'_def)
  from t have same: "later = now \<longrightarrow> schedule e' ! i = isoformat (days_after now 1)" by simp
  show ?thesis
    by (intro exI [of _ e'] conjI pin res q k rest t same o l)
qed

text \<open>The example of the specification: at tier 1 on 2024-01-04, a wrong answer moves
  \<open>schedule[1]\<close> to 2024-01-05 and nothing else, and the table holds the changed row.\<close>

theorem incorrect_answer_postpones_tier_witness:
  "reachable (example_entry example_schedule 1 [correct_on ''2024-01-02''] False) \<and>
   api_answer (Date 2024 1 4) (Date 2024 1 4) 1 1 (Some ''dog'')
           [example_entry example_schedule 1 [correct_on ''2024-01-02''] False] =
         (Inr \<lparr>resp_correct = False, resp_expected = ''cat'', resp_completed = False\<rparr>,
          [example_entry
             [''2024-01-02'', ''2024-01-05'', ''2024-01-08'', ''2024-01-15'', ''2024-01-31''] 1
             [correct_on ''2024-01-02'', incorrect_on ''2024-01-04''] False])"
proof -
  let ?E = "example_entry example_schedule 1 [correct_on ''2024-01-02''] False"
  have idx: "next_review_index ?E = int 1" "(1::nat) < 5" by (simp_all add: example_entry_def)
  have tm: "isoformat (days_after (Date 2024 1 4) 1) = ''2024-01-05''"
    unfolding days_after_1 valid_2024 iso_2024_01 ..
  from incorrect_answer_postpones_tier
         [OF reachable_example_at1 valid_2024(3) valid_2024(3) valid_2024(9) find_example idx
             match_example(2)]
  have "api_answer (Date 2024 1 4) (Date 2024 1 4) 1 1 (Some ''dog'') [?E] =
         (Inr \<lparr>resp_correct = False, resp_expected = english ?E, resp_completed = False\<rparr>,
          map (\<lambda>x. if entry_id x = 1
                     then ?E\<lparr>schedule := (schedule ?E)[1 := isoformat (days_after (Date 2024 1 4) 1)],
                             history := history ?E @ [incorrect_on (get_today_str (Date 2024 1 4))]\<rparr>
                     else x) [?E])"
    by blast
  then have "api_answer (Date 2024 1 4) (Date 2024 1 4) 1 1 (Some ''dog'') [?E] =
         (Inr \<lparr>resp_correct = False, resp_expected = ''cat'', resp_completed = False\<rparr>,
          [example_entry
             [''2024-01-02'', ''2024-01-05'', ''2024-01-08'', ''2024-01-15'', ''2024-01-31''] 1
             [correct_on ''2024-01-02'', incorrect_on ''2024-01-04''] False])"
    unfolding tm iso_2024_01 by (simp add: example_entry_def example_schedule_def)
  with reachable_example_at1 show ?thesis by (intro conjI)
qed

text \<open>
  C1 as stated fails in three places. An entry whose tier 0 was missed once and then passed
  holds a postponed date at tier 0, not the date computed from the registration date, and a
  wrong answer at tier 1 leaves it so. On 9999-12-31 tomorrow is no date: the request ends
  in an \<^verbatim>\<open>OverflowError\<close> and nothing is written. And when midnight passes between the two
  readings of the clock, the history record is dated 2024-01-04 and \<open>schedule[1]\<close> becomes
  2024-01-06, two days later.
\<close>

theorem incorrect_answer_other_tiers_counterexample:
  "reachable (example_entry
     [''2024-01-03'', ''2024-01-04'', ''2024-01-08'', ''2024-01-15'', ''2024-01-31''] 1
     [incorrect_on ''2024-01-02'', correct_on ''2024-01-03''] False) \<and>
   api_answer (Date 2024 1 4) (Date 2024 1 4) 1 1 (Some ''dog'')
     [example_entry
        [''2024-01-03'', ''2024-01-04'', ''2024-01-08'', ''2024-01-15'', ''2024-01-31''] 1
        [incorrect_on ''2024-01-02'', correct_on ''2024-01-03''] False] =
     (Inr \<lparr>resp_correct = False, resp_expected = ''cat'', resp_completed = False\<rparr>,
      [example_entry
        [''2024-01-03'', ''2024-01-05'', ''2024-01-08'', ''2024-01-15'', ''2024-01-31''] 1
        [incorrect_on ''2024-01-02'', correct_on ''2024-01-03'', incorrect_on ''2024-01-04'']
        False]) \<and>
   generate_schedule ''2024-01-01'' =
     Inr [''2024-01-02'', ''2024-01-04'', ''2024-01-08'', ''2024-01-15'', ''2024-01-31''] \<and>
   api_answer date_max date_max 1 1 (Some ''dog'')
     [example_entry example_schedule 1 [correct_on ''2024-01-02''] False] =
     (Inl OverflowError, [example_entry example_schedule 1 [correct_on ''2024-01-02''] False]) \<and>
   api_answer (Date 2024 1 4) (Date 2024 1 5) 1 1 (Some ''dog'')
     [example_entry example_schedule 1 [correct_on ''2024-01-02''] False] =
     (Inr \<lparr>resp_correct = False, resp_expected = ''cat'', resp_completed = False\<rparr>,
      [example_entry
        [''2024-01-02'', ''2024-01-06'', ''2024-01-08'', ''2024-01-15'', ''2024-01-31''] 1
        [correct_on ''2024-01-02'', incorrect_on ''2024-01-04''] False])"
proof (intro conjI)
  let ?E = "example_entry
     [''2024-01-03'', ''2024-01-04'', ''2024-01-08'', ''2024-01-15'', ''2024-01-31''] 1
     [incorrect_on ''2024-01-02'', correct_on ''2024-01-03''] False"
  show "reachable ?E" by (rule reachable_example_tier1)
  have "answer_entry (Date 2024 1 4) (Date 2024 1 4) ''dog'' ?E =
      Inr (False, example_entry
        [''2024-01-03'', ''2024-01-05'', ''2024-01-08'', ''2024-01-15'', ''2024-01-31''] 1
        [incorrect_on ''2024-01-02'', correct_on ''2024-01-03'', incorrect_on ''2024-01-04'']
        False)"
    by (subst example_incorrect) (simp_all add: valid_2024 iso_2024_01 del: One_nat_def)
  then have "answer_entry (Date 2024 1 4) (Date 2024 1 4) (py_strip ''dog'') ?E =
      Inr (False, example_entry
        [''2024-01-03'', ''2024-01-05'', ''2024-01-08'', ''2024-01-15'', ''2024-01-31''] 1
        [incorrect_on ''2024-01-02'', correct_on ''2024-01-03'', incorrect_on ''2024-01-04'']
        False)"
    by (simp add: text_eval)
  from api_answer_found [OF find_example this]
  show "api_answer (Date 2024 1 4) (Date 2024 1 4) 1 1 (Some ''dog'') [?E] =
     (Inr \<lparr>resp_correct = False, resp_expected = ''cat'', resp_completed = False\<rparr>,
      [example_entry
        [''2024-01-03'', ''2024-01-05'', ''2024-01-08'', ''2024-01-15'', ''2024-01-31''] 1
        [incorrect_on ''2024-01-02'', correct_on ''2024-01-03'', incorrect_on ''2024-01-04'']
        False])"
    by (simp add: example_entry_def save_entry_def)
  show "generate_schedule ''2024-01-01'' =
     Inr [''2024-01-02'', ''2024-01-04'', ''2024-01-08'', ''2024-01-15'', ''2024-01-31'']"
    using example_schedule_generated by (simp add: example_schedule_def)
  let ?F = "example_entry example_schedule 1 [correct_on ''2024-01-02''] False"
  have "date_add_days date_max 1 = Inl OverflowError"
    by (simp add: date_add_days.simps)
  with answer_entry_incorrect [OF match_example(2), of date_max date_max example_schedule 1
         "[correct_on ''2024-01-02'']" False]
  have "answer_entry date_max date_max (py_strip ''dog'') ?F = Inl OverflowError" by simp
  from api_answer_raises [OF find_example this]
  show "api_answer date_max date_max 1 1 (Some ''dog'') [?F] = (Inl OverflowError, [?F])" .
  have "answer_entry (Date 2024 1 4) (Date 2024 1 5) ''dog'' ?F =
      Inr (False, example_entry
        [''2024-01-02'', ''2024-01-06'', ''2024-01-08'', ''2024-01-15'', ''2024-01-31''] 1
        [correct_on ''2024-01-02'', incorrect_on ''2024-01-04''] False)"
    by (subst example_incorrect)
       (simp_all add: valid_2024 iso_2024_01 example_schedule_def del: One_nat_def)
  then have "answer_entry (Date 2024 1 4) (Date 2024 1 5) (py_strip ''dog'') ?F =
      Inr (False, example_entry
        [''2024-01-02'', ''2024-01-06'', ''2024-01-08'', ''2024-01-15'', ''2024-01-31''] 1
        [correct_on ''2024-01-02'', incorrect_on ''2024-01-04''] False)"
    by (simp add: text_eval)
  from api_answer_found [OF find_example this]
  show "api_answer (Date 2024 1 4) (Date 2024 1 5) 1 1 (Some ''dog'') [?F] =
     (Inr \<lparr>resp_correct = False, resp_expected = ''cat'', resp_completed = False\<rparr>,
      [example_entry
        [''2024-01-02'', ''2024-01-06'', ''2024-01-08'', ''2024-01-15'', ''2024-01-31''] 1
        [correct_on ''2024-01-02'', incorrect_on ''2024-01-04''] False])"
    by (simp add: example_entry_def save_entry_def)
qed

subsection \<open>The state predicate\<close>

lemma live_state_predicate:
  assumes "reachable e" "\<not> completed e"
  shows "state_predicate e"
  using reachable_inv [OF assms(1)] assms(2) by (simp add: entry_inv_def state_predicate_def)

lemma live_answer_state_predicate:
  assumes re: "reachable e" and nc: "\<not> completed e"
    and a: "answer_entry now later answer e = Inr (c, e')"
  shows "state_predicate e'"
proof (cases "answer_matches answer (english e)")
  case True
  from reachable_inv [OF re] nc have "length (schedule e) = 5" "0 \<le> next_review_index e"
    "next_review_index e < 5" by (simp_all add: entry_inv_def)
  moreover from a answer_entry_correct [OF True, of now later]
  have "e' = e\<lparr>next_review_index := next_review_index e + 1,
                 completed := (if int (length (schedule e)) \<le> next_review_index e + 1
                               then True else completed e),
                 history := history e @ [correct_on (get_today_str now)]\<rparr>" by simp
  ultimately show ?thesis
    using nc by (cases "4 \<le> next_review_index e") (simp_all add: state_predicate_def)
next
  case False
  from a answer_entry_incorrect [OF False, of now later] live_state_predicate [OF re nc]
  show ?thesis
    by (auto simp: state_predicate_def split: sum.splits)
qed

lemma completed_answer:
  assumes re: "reachable e" and co: "completed e"
    and a: "answer_entry now later answer e = Inr (c, e')"
  shows "c \<and> next_review_index e' = next_review_index e + 1 \<and> completed e'"
proof (cases "answer_matches answer (english e)")
  case True
  from reachable_inv [OF re] co have "length (schedule e) = 5" "5 \<le> next_review_index e"
    by (simp_all add: entry_inv_def)
  with a answer_entry_correct [OF True, of now later] show ?thesis by auto
next
  case False
  from reachable_inv [OF re] co have "length (schedule e) = 5" "5 \<le> next_review_index e"
    by (simp_all add: entry_inv_def)
  then have "list_setitem (schedule e) (next_review_index e) v = Inl IndexError" for v
    by (simp add: list_setitem_def Let_def)
  with a answer_entry_incorrect [OF False, of now later] show ?thesis
    by (auto split: sum.splits)
qed

text \<open>
  C6 (as amended). The state predicate (index in 0..5, completed exactly at index 5) holds
  for a new entry, holds for every reachable entry that is not completed, and still holds
  after any answer to such an entry. Every reachable entry has an index that is not negative
  and is completed exactly when its index is at least 5. On a completed entry only a correct
  answer is recorded, and it moves the index one further, beyond 5.
\<close>

theorem state_predicate_until_completed:
  "state_predicate (new_entry i uid jp en today sched) \<and>
   (reachable e \<longrightarrow>
      0 \<le> next_review_index e \<and> (completed e \<longleftrightarrow> 5 \<le> next_review_index e)) \<and>
   (reachable e \<and> \<not> completed e \<longrightarrow> state_predicate e) \<and>
   (reachable e \<and> \<not> completed e \<and> answer_entry now later answer e = Inr (c, e') \<longrightarrow>
      state_predicate e') \<and>
   (reachable e \<and> completed e \<and> answer_entry now later answer e = Inr (c, e') \<longrightarrow>
      c \<and> next_review_index e' = next_review_index e + 1 \<and> completed e')"
proof (intro conjI impI)
  show "state_predicate (new_entry i uid jp en today sched)"
    by (simp add: state_predicate_def new_entry_def)
next
  assume "reachable e"
  from reachable_inv [OF this] show "0 \<le> next_review_index e"
    and "completed e \<longleftrightarrow> 5 \<le> next_review_index e" by (simp_all add: entry_inv_def)
next
  assume "reachable e \<and> \<not> completed e"
  then show "state_predicate e" using live_state_predicate by blast
next
  assume "reachable e \<and> \<not> completed e \<and> answer_entry now later answer e = Inr (c, e')"
  then show "state_predicate e'" using live_answer_state_predicate by blast
next
  assume h: "reachable e \<and> completed e \<and> answer_entry now later answer e = Inr (c, e')"
  then show "c" and "next_review_index e' = next_review_index e + 1" and "completed e'"
    using completed_answer by blast+
qed

text \<open>The example entry at tier 4: the predicate holds before and after the last correct
  answer, which completes it at index 5.\<close>

theorem state_predicate_until_completed_witness:
  "reachable (example_entry example_schedule 4
      [correct_on ''2024-01-02'', correct_on ''2024-01-04'', correct_on ''2024-01-08'',
       correct_on ''2024-01-15''] False) \<and>
   answer_entry (Date 2024 1 31) (Date 2024 1 31) ''cat'' (example_entry example_schedule 4
      [correct_on ''2024-01-02'', correct_on ''2024-01-04'', correct_on ''2024-01-08'',
       correct_on ''2024-01-15''] False) =
     Inr (True, example_entry example_schedule 5
      [correct_on ''2024-01-02'', correct_on ''2024-01-04'', correct_on ''2024-01-08'',
       correct_on ''2024-01-15'', correct_on ''2024-01-31''] True) \<and>
   state_predicate (example_entry example_schedule 4
      [correct_on ''2024-01-02'', correct_on ''2024-01-04'', correct_on ''2024-01-08'',
       correct_on ''2024-01-15''] False) \<and>
   state_predicate (example_entry example_schedule 5
      [correct_on ''2024-01-02'', correct_on ''2024-01-04'', correct_on ''2024-01-08'',
       correct_on ''2024-01-15'', correct_on ''2024-01-31''] True)"
proof -
  let ?E = "example_entry example_schedule 4
      [correct_on ''2024-01-02'', correct_on ''2024-01-04'', correct_on ''2024-01-08'',
       correct_on ''2024-01-15''] False"
  let ?F = "example_entry example_schedule 5
      [correct_on ''2024-01-02'', correct_on ''2024-01-04'', correct_on ''2024-01-08'',
       correct_on ''2024-01-15'', correct_on ''2024-01-31''] True"
  have a: "answer_entry (Date 2024 1 31) (Date 2024 1 31) ''cat'' ?E = Inr (True, ?F)"
    by (subst example_correct)
       (simp add: iso_2024_01 example_schedule_def del: One_nat_def)
  have nc: "\<not> completed ?E" by (simp add: example_entry_def)
  from state_predicate_until_completed
         [of _ _ _ _ _ _ ?E "Date 2024 1 31" "Date 2024 1 31" "''cat''" True ?F]
       reachable_example_at4 a nc
  show ?thesis by blast
qed

text \<open>
  C6 as stated fails for an entry that is already completed: \<^verbatim>\<open>/api/answer\<close> does not
  refuse it, and a correct answer moves its index from 5 to 6 while it stays completed.
\<close>

theorem state_predicate_completed_counterexample:
  "reachable (example_entry example_schedule 5
      [correct_on ''2024-01-02'', correct_on ''2024-01-04'', correct_on ''2024-01-08'',
       correct_on ''2024-01-15'', correct_on ''2024-01-31''] True) \<and>
   state_predicate (example_entry example_schedule 5
      [correct_on ''2024-01-02'', correct_on ''2024-01-04'', correct_on ''2024-01-08'',
       correct_on ''2024-01-15'', correct_on ''2024-01-31''] True) \<and>
   api_answer (Date 2024 2 1) (Date 2024 2 1) 1 1 (Some ''cat'')
     [example_entry example_schedule 5
      [correct_on ''2024-01-02'', correct_on ''2024-01-04'', correct_on ''2024-01-08'',
       correct_on ''2024-01-15'', correct_on ''2024-01-31''] True] =
     (Inr \<lparr>resp_correct = True, resp_expected = ''cat'', resp_completed = True\<rparr>,
      [example_entry example_schedule 6
        [correct_on ''2024-01-02'', correct_on ''2024-01-04'', correct_on ''2024-01-08'',
         correct_on ''2024-01-15'', correct_on ''2024-01-31'', correct_on ''2024-02-01'']
        True]) \<and>
   \<not> state_predicate (example_entry example_schedule 6
        [correct_on ''2024-01-02'', correct_on ''2024-01-04'', correct_on ''2024-01-08'',
         correct_on ''2024-01-15'', correct_on ''2024-01-31'', correct_on ''2024-02-01'']
        True)"
proof (intro conjI)
  let ?E = "example_entry example_schedule 5
      [correct_on ''2024-01-02'', correct_on ''2024-01-04'', correct_on ''2024-01-08'',
       correct_on ''2024-01-15'', correct_on ''2024-01-31''] True"
  let ?F = "example_entry example_schedule 6
        [correct_on ''2024-01-02'', correct_on ''2024-01-04'', correct_on ''2024-01-08'',
         correct_on ''2024-01-15'', correct_on ''2024-01-31'', correct_on ''2024-02-01'']
        True"
  show "reachable ?E" by (rule reachable_example_completed)
  show "state_predicate ?E" by (simp add: state_predicate_def example_entry_def)
  have "answer_entry (Date 2024 2 1) (Date 2024 2 1) ''cat'' ?E = Inr (True, ?F)"
    by (subst example_correct)
       (simp add: iso_2024_01 example_schedule_def del: One_nat_def)
  then have "answer_entry (Date 2024 2 1) (Date 2024 2 1) (py_strip ''cat'') ?E = Inr (True, ?F)"
    by (simp add: text_eval)
  from api_answer_found [OF find_example this]
  show "api_answer (Date 2024 2 1) (Date 2024 2 1) 1 1 (Some ''cat'') [?E] =
     (Inr \<lparr>resp_correct = True, resp_expected = ''cat'', resp_completed = True\<rparr>, [?F])"
    by (simp add: example_entry_def save_entry_def)
  show "\<not> state_predicate ?F" by (simp add: state_predicate_def example_entry_def)
qed

subsection \<open>Due entries\<close>

lemma due_check_inv:
  assumes "entry_inv e"
  shows "due_check today e =
           Inr (next_review_index e < 5 \<and> str_le (schedule e ! nat (next_review_index e)) today)"
proof -
  from assms have l: "length (schedule e) = 5" and i: "0 \<le> next_review_index e"
    by (simp_all add: entry_inv_def)
  show ?thesis
  proof (cases "next_review_index e < 5")
    case True
    with l i have "list_getitem (schedule e) (next_review_index e) =
        Inr (schedule e ! nat (next_review_index e))"
      by (intro list_getitem_ok) simp_all
    with True l show ?thesis by (simp add: due_check_def Let_def)
  next
    case False
    with l show ?thesis by (simp add: due_check_def Let_def)
  qed
qed

lemma is_due_inv:
  assumes "entry_inv e"
  shows "is_due today e =
           Inr (\<not> completed e \<and> next_review_index e < 5 \<and>
                str_le (schedule e ! nat (next_review_index e)) today)"
  using assms by (simp add: is_due_def due_check_inv)

lemma select_due_inv:
  "\<forall>e \<in> set es. entry_inv e \<Longrightarrow>
   select_due today es = Inr (filter (\<lambda>e. due_check today e = Inr True) es)"
  by (induction es) (simp_all add: due_check_inv)

lemma api_reviews_inv:
  assumes "\<forall>e \<in> set db. entry_inv e"
  shows "api_reviews now uid db =
           Inr (filter (\<lambda>e. user_id e = uid \<and> is_due (get_today_str now) e = Inr True) db)"
proof -
  from assms have "\<forall>e \<in> set (filter (\<lambda>e. user_id e = uid \<and> \<not> completed e) db). entry_inv e"
    by simp
  from select_due_inv [OF this]
  have "api_reviews now uid db =
      Inr (filter (\<lambda>e. due_check (get_today_str now) e = Inr True)
             (filter (\<lambda>e. user_id e = uid \<and> \<not> completed e) db))"
    by (simp add: api_reviews_def)
  also have "filter (\<lambda>e. due_check (get_today_str now) e = Inr True)
             (filter (\<lambda>e. user_id e = uid \<and> \<not> completed e) db) =
     filter (\<lambda>e. user_id e = uid \<and> is_due (get_today_str now) e = Inr True) db"
    by (induction db) (auto simp: is_due_def)
  finally show ?thesis .
qed

lemma api_data_review_ids_inv:
  assumes "\<forall>e \<in> set db. entry_inv e"
  shows "api_data_review_ids now uid db =
           Inr (map entry_id
             (filter (\<lambda>e. user_id e = uid \<and> is_due (get_today_str now) e = Inr True) db))"
proof -
  from assms have
    "\<forall>e \<in> set (filter (\<lambda>e. \<not> completed e) (filter (\<lambda>e. user_id e = uid) db)). entry_inv e"
    by simp
  from select_due_inv [OF this]
  have "api_data_review_ids now uid db =
      Inr (map entry_id (filter (\<lambda>e. due_check (get_today_str now) e = Inr True)
             (filter (\<lambda>e. \<not> completed e) (filter (\<lambda>e. user_id e = uid) db))))"
    by (simp add: api_data_review_ids_def)
  also have "filter (\<lambda>e. due_check (get_today_str now) e = Inr True)
             (filter (\<lambda>e. \<not> completed e) (filter (\<lambda>e. user_id e = uid) db)) =
     filter (\<lambda>e. user_id e = uid \<and> is_due (get_today_str now) e = Inr True) db"
    by (induction db) (auto simp: is_due_def)
  finally show ?thesis .
qed

lemma str_le_later:
  assumes d: "valid_date d" and t: "valid_date today" and l: "valid_date later"
    and le: "str_le (isoformat d) (isoformat today)" and tl: "date_le today later"
  shows "str_le (isoformat d) (isoformat later)"
proof -
  from le have "date_le d today" by (simp add: str_le_isoformat [OF d t])
  from this tl have "date_le d later" by (rule date_le_trans)
  then show ?thesis by (simp add: str_le_isoformat [OF d l])
qed

lemma current_tier_date:
  assumes inv: "entry_inv e" and lt: "next_review_index e < 5"
  shows "\<exists>d. valid_date d \<and> schedule e ! nat (next_review_index e) = isoformat d"
proof -
  from inv lt have "nat (next_review_index e) < length (schedule e)"
    by (simp add: entry_inv_def)
  with inv have "iso_string (schedule e ! nat (next_review_index e))"
    by (simp add: entry_inv_def list_all_length)
  from iso_stringD [OF this] show ?thesis by blast
qed

lemma due_compares_dates:
  assumes inv: "entry_inv e" and v: "valid_date today" and lt: "next_review_index e < 5"
  shows "\<exists>d. valid_date d \<and> schedule e ! nat (next_review_index e) = isoformat d \<and>
             (str_le (schedule e ! nat (next_review_index e)) (get_today_str today)
                \<longleftrightarrow> date_le d today)"
proof -
  from current_tier_date [OF inv lt] obtain d where d: "valid_date d"
    and s: "schedule e ! nat (next_review_index e) = isoformat d" by blast
  have "str_le (isoformat d) (isoformat today) \<longleftrightarrow> date_le d today"
    by (rule str_le_isoformat [OF d v])
  with d show ?thesis
    unfolding s get_today_str_def by blast
qed

lemma due_stays_due:
  assumes inv: "entry_inv e" and v: "valid_date today" and l: "valid_date later"
    and tl: "date_le today later" and due: "is_due (get_today_str today) e = Inr True"
  shows "is_due (get_today_str later) e = Inr True"
proof -
  from due have lt: "next_review_index e < 5" and nc: "\<not> completed e"
    and le: "str_le (schedule e ! nat (next_review_index e)) (get_today_str today)"
    by (simp_all add: is_due_inv [OF inv])
  from current_tier_date [OF inv lt] obtain d where d: "valid_date d"
    and s: "schedule e ! nat (next_review_index e) = isoformat d" by blast
  from le have "str_le (isoformat d) (isoformat today)"
    unfolding s get_today_str_def .
  from str_le_later [OF d v l this tl]
  have "str_le (schedule e ! nat (next_review_index e)) (get_today_str later)"
    unfolding s get_today_str_def .
  with lt nc show ?thesis
    unfolding is_due_inv [OF inv] by simp
qed

text \<open>
  C3. For a reachable entry and a date \<open>today\<close>, the entry is due exactly when it is not
  completed, its index is below 5 and \<open>schedule[index] \<le> today\<close>; the comparison is one of ISO
  strings and agrees with that of the dates. An entry that is due stays due on every later
  day: there is no expiry. \<^verbatim>\<open>/api/reviews\<close> and \<^verbatim>\<open>/api/data\<close> list exactly the due entries
  of the user.
\<close>

theorem due_iff_not_completed_and_scheduled:
  assumes re: "reachable e" and v: "valid_date today"
  shows "is_due (get_today_str today) e =
           Inr (\<not> completed e \<and> next_review_index e < 5 \<and>
                str_le (schedule e ! nat (next_review_index e)) (get_today_str today)) \<and>
         (next_review_index e < 5 \<longrightarrow>
            (\<exists>d. valid_date d \<and> schedule e ! nat (next_review_index e) = isoformat d \<and>
                 (str_le (schedule e ! nat (next_review_index e)) (get_today_str today)
                    \<longleftrightarrow> date_le d today))) \<and>
         (\<forall>later. valid_date later \<and> date_le today later \<and>
                  is_due (get_today_str today) e = Inr True \<longrightarrow>
                  is_due (get_today_str later) e = Inr True) \<and>
         (\<forall>db uid. (\<forall>x \<in> set db. reachable x) \<longrightarrow>
            api_reviews today uid db =
              Inr (filter (\<lambda>x. user_id x = uid \<and> is_due (get_today_str today) x = Inr True) db) \<and>
            api_data_review_ids today uid db =
              Inr (map entry_id
                (filter (\<lambda>x. user_id x = uid \<and> is_due (get_today_str today) x = Inr True) db)))"
proof -
  note inv = reachable_inv [OF re]
  have p1: "is_due (get_today_str today) e =
           Inr (\<not> completed e \<and> next_review_index e < 5 \<and>
                str_le (schedule e ! nat (next_review_index e)) (get_today_str today))"
    by (rule is_due_inv [OF inv])
  have p2: "next_review_index e < 5 \<longrightarrow>
            (\<exists>d. valid_date d \<and> schedule e ! nat (next_review_index e) = isoformat d \<and>
                 (str_le (schedule e ! nat (next_review_index e)) (get_today_str today)
                    \<longleftrightarrow> date_le d today))"
    using due_compares_dates [OF inv v] by (rule impI)
  have p3: "\<forall>later. valid_date later \<and> date_le today later \<and>
                  is_due (get_today_str today) e = Inr True \<longrightarrow>
                  is_due (get_today_str later) e = Inr True"
    using due_stays_due [OF inv v] by blast
  have p4: "\<forall>db uid. (\<forall>x \<in> set db. reachable x) \<longrightarrow>
            api_reviews today uid db =
              Inr (filter (\<lambda>x. user_id x = uid \<and> is_due (get_today_str today) x = Inr True) db) \<and>
            api_data_review_ids today uid db =
              Inr (map entry_id
                (filter (\<lambda>x. user_id x = uid \<and> is_due (get_today_str today) x = Inr True) db))"
  proof (intro allI impI)
    fix db :: database and uid
    assume "\<forall>x \<in> set db. reachable x"
    then have a: "\<forall>x \<in> set db. entry_inv x" by (simp add: reachable_inv)
    from api_reviews_inv [OF a] api_data_review_ids_inv [OF a]
    show "api_reviews today uid db =
              Inr (filter (\<lambda>x. user_id x = uid \<and> is_due (get_today_str today) x = Inr True) db) \<and>
            api_data_review_ids today uid db =
              Inr (map entry_id
                (filter (\<lambda>x. user_id x = uid \<and> is_due (get_today_str today) x = Inr True) db))"
      by (rule conjI)
  qed
  from p1 p2 p3 p4 show ?thesis by (intro conjI)
qed

text \<open>The example of the specification: at tier 1 the entry is not due on 2024-01-03, due on
  2024-01-04 (\<open>schedule[1]\<close> is that day) and still due on 2024-02-01.\<close>

theorem due_iff_not_completed_and_scheduled_witness:
  "reachable (example_entry example_schedule 1 [correct_on ''2024-01-02''] False) \<and>
   is_due ''2024-01-03'' (example_entry example_schedule 1 [correct_on ''2024-01-02''] False)
     = Inr False \<and>
   is_due ''2024-01-04'' (example_entry example_schedule 1 [correct_on ''2024-01-02''] False)
     = Inr True \<and>
   is_due ''2024-02-01'' (example_entry example_schedule 1 [correct_on ''2024-01-02''] False)
     = Inr True"
proof -
  let ?E = "example_entry example_schedule 1 [correct_on ''2024-01-02''] False"
  note t = due_iff_not_completed_and_scheduled [OF reachable_example_at1, THEN conjunct1]
  have e: "\<not> completed ?E" "next_review_index ?E < 5"
    "schedule ?E ! nat (next_review_index ?E) = ''2024-01-04''"
    by (simp_all add: example_entry_def example_schedule_def)
  have "is_due (get_today_str (Date 2024 1 3)) ?E = Inr False"
    by (subst t [OF valid_2024(2)]) (simp add: e iso_2024_01 del: One_nat_def)
  moreover have "is_due (get_today_str (Date 2024 1 4)) ?E = Inr True"
    by (subst t [OF valid_2024(3)]) (simp add: e iso_2024_01 del: One_nat_def)
  moreover have "is_due (get_today_str (Date 2024 2 1)) ?E = Inr True"
    by (subst t [OF valid_2024(7)]) (simp add: e iso_2024_01 del: One_nat_def)
  ultimately show ?thesis
    unfolding iso_2024_01 using reachable_example_at1 by simp
qed

subsection \<open>The client\<close>

lemma nextQuestion_db: "server_db (nextQuestion w) = server_db w"
  by (simp add: nextQuestion_def Let_def showFinalResult_def showRoundResult_def
        renderQuestion_def split: test_var.splits)

lemma api_answer_blank_is_incorrect:
  assumes re: "reachable e" and nm: "later \<noteq> date_max"
    and f: "find_entry eid uid db = Some e" and nc: "\<not> completed e"
    and b: "py_strip (case answer_field of None \<Rightarrow> [] | Some s \<Rightarrow> s) = []"
  shows "\<exists>e'. api_answer now later uid eid answer_field db =
               (Inr \<lparr>resp_correct = False, resp_expected = english e,
                     resp_completed = False\<rparr>, save_entry e' db) \<and>
             history e' = history e @ [incorrect_on (get_today_str now)]"
proof -
  from reachable_inv [OF re] nc have en: "english e \<noteq> []" and l: "length (schedule e) = 5"
    and i: "0 \<le> next_review_index e" "next_review_index e < 5"
    by (simp_all add: entry_inv_def)
  from en have m: "\<not> answer_matches [] (english e)"
    by (simp add: answer_matches_def py_lower_def)
  from i l have r: "next_review_index e < int (length (schedule e))" by simp
  define e' where "e' = e\<lparr>schedule := (schedule e)[nat (next_review_index e) :=
                                                        isoformat (next_day later)],
                         history := history e @ [incorrect_on (get_today_str now)]\<rparr>"
  from answer_entry_incorrect_ok [OF m nm i(1) r] f b nc
  have "api_answer now later uid eid answer_field db =
               (Inr \<lparr>resp_correct = False, resp_expected = english e,
                     resp_completed = False\<rparr>, save_entry e' db)"
    by (simp add: api_answer_def e'_def)
  then show ?thesis
    by (intro exI [of _ e']) (simp add: e'_def)
qed

text \<open>
  C7. An answer that is empty after trimming is turned away by \<^verbatim>\<open>submitAnswer\<close> before any
  request is sent: the handler returns at once, the session is as it was, and no entry of
  the table changes (so the history, the schedule, the index and the completion flag of
  every item are unchanged). When the handler is waiting for "next", it goes on to the next
  question, which changes no entry either.
\<close>

theorem empty_answer_changes_nothing:
  assumes "js_trim input = []"
  shows "server_db (submitAnswer clock uid input w) = server_db w \<and>
         (\<forall>s. testState w = Test s \<and> \<not> ts_waiting s \<longrightarrow> submitAnswer clock uid input w = w)"
  using assms
  by (auto simp: submitAnswer_def nextQuestion_db Let_def split: test_var.splits)

lemmas route_eval = api_reviews_def select_due.simps due_check_def list_getitem_def
  list_setitem_def find_entry_def save_entry_def api_answer_def answer_entry_def
  api_today_practiced_def example_entry_def example_schedule_def example_due_def
  example_world_def correct_on_def incorrect_on_def

lemma startTest_example:
  "startTest (Date 2024 1 4) 1 example_world =
     example_world\<lparr>testState := Test \<lparr>ts_reviews = [example_due], ts_idx = 0, ts_correct = 0,
                                           ts_tested = 0, ts_waiting = False, ts_incorrect = [],
                                           ts_round = 1, ts_totalOriginal = 1\<rparr>,
                   shown := Question\<rparr>"
proof -
  have "api_reviews (Date 2024 1 4) 1 (server_db example_world) = Inr [example_due]"
    unfolding api_reviews_def iso_2024_01
    by (simp add: example_world_def example_due_def example_entry_def example_schedule_def
          due_check_def list_getitem_def)
  then show ?thesis by (simp add: startTest_def)
qed

text \<open>A blank answer to the first question of a test over the example entry.\<close>

theorem empty_answer_changes_nothing_witness:
  "js_trim ''   '' = [] \<and>
   shown (startTest (Date 2024 1 4) 1 example_world) = Question \<and>
   submitAnswer (Date 2024 1 4, Date 2024 1 4) 1 ''   '' (startTest (Date 2024 1 4) 1 example_world) =
     startTest (Date 2024 1 4) 1 example_world \<and>
   server_db (submitAnswer (Date 2024 1 4, Date 2024 1 4) 1 ''   '' (startTest (Date 2024 1 4) 1 example_world)) =
     [example_due]"
proof -
  have b: "js_trim ''   '' = []" by (simp add: text_eval)
  let ?w = "startTest (Date 2024 1 4) 1 example_world"
  have t: "testState ?w = Test \<lparr>ts_reviews = [example_due], ts_idx = 0, ts_correct = 0,
                                   ts_tested = 0, ts_waiting = False, ts_incorrect = [],
                                   ts_round = 1, ts_totalOriginal = 1\<rparr>"
    and q: "shown ?w = Question" and d: "server_db ?w = [example_due]"
    unfolding startTest_example by (simp_all add: example_world_def)
  from empty_answer_changes_nothing [OF b, of "(Date 2024 1 4, Date 2024 1 4)" 1 ?w] t
  have "submitAnswer (Date 2024 1 4, Date 2024 1 4) 1 ''   '' ?w = ?w" by simp
  with b q d show ?thesis by simp
qed

text \<open>
  The route \<^verbatim>\<open>/api/answer\<close> itself has no such check. A request whose answer is blank, or
  has no answer at all, is compared with the English word like any other, found different,
  and recorded: the example entry gets an incorrect record and its tier-1 date moves to
  2024-01-05.
\<close>

theorem blank_answer_is_recorded_counterexample:
  "reachable example_due \<and>
   py_strip ''   '' = [] \<and>
   api_answer (Date 2024 1 4) (Date 2024 1 4) 1 1 (Some ''   '') [example_due] =
     (Inr \<lparr>resp_correct = False, resp_expected = ''cat'', resp_completed = False\<rparr>,
      [example_entry
        [''2024-01-02'', ''2024-01-05'', ''2024-01-08'', ''2024-01-15'', ''2024-01-31''] 1
        [correct_on ''2024-01-02'', incorrect_on ''2024-01-04''] False]) \<and>
   api_answer (Date 2024 1 4) (Date 2024 1 4) 1 1 None [example_due] =
     (Inr \<lparr>resp_correct = False, resp_expected = ''cat'', resp_completed = False\<rparr>,
      [example_entry
        [''2024-01-02'', ''2024-01-05'', ''2024-01-08'', ''2024-01-15'', ''2024-01-31''] 1
        [correct_on ''2024-01-02'', incorrect_on ''2024-01-04''] False])"
proof -
  have r: "reachable example_due"
    unfolding example_due_def by (rule reachable_example_at1)
  have b: "py_strip ''   '' = []" by (simp add: text_eval)
  have m: "\<not> answer_matches [] (english example_due)"
    by (simp add: example_due_def example_entry_def text_eval)
  have i: "0 \<le> next_review_index example_due"
    "next_review_index example_due < int (length (schedule example_due))"
    by (simp_all add: example_due_def example_entry_def example_schedule_def)
  have a: "answer_entry (Date 2024 1 4) (Date 2024 1 4) [] example_due =
      Inr (False, example_entry
        [''2024-01-02'', ''2024-01-05'', ''2024-01-08'', ''2024-01-15'', ''2024-01-31''] 1
        [correct_on ''2024-01-02'', incorrect_on ''2024-01-04''] False)"
    unfolding answer_entry_incorrect_ok [OF m valid_2024(9) i] valid_2024 iso_2024_01
    by (simp add: example_due_def example_entry_def example_schedule_def)
  have f: "find_entry 1 1 [example_due] = Some example_due"
    unfolding example_due_def by (rule find_example)
  have s: "api_answer (Date 2024 1 4) (Date 2024 1 4) 1 1 (Some ''   '') [example_due] =
     (Inr \<lparr>resp_correct = False, resp_expected = ''cat'', resp_completed = False\<rparr>,
      [example_entry
        [''2024-01-02'', ''2024-01-05'', ''2024-01-08'', ''2024-01-15'', ''2024-01-31''] 1
        [correct_on ''2024-01-02'', incorrect_on ''2024-01-04''] False])"
    unfolding api_answer_def option.case b Let_def f a
    by (simp add: save_entry_def example_due_def example_entry_def)
  have n: "api_answer (Date 2024 1 4) (Date 2024 1 4) 1 1 None [example_due] =
     (Inr \<lparr>resp_correct = False, resp_expected = ''cat'', resp_completed = False\<rparr>,
      [example_entry
        [''2024-01-02'', ''2024-01-05'', ''2024-01-08'', ''2024-01-15'', ''2024-01-31''] 1
        [correct_on ''2024-01-02'', incorrect_on ''2024-01-04''] False])"
  proof -
    have e: "py_strip [] = []" by (simp add: py_strip_def strip_by_def)
    show ?thesis
      unfolding api_answer_def option.case e Let_def f a
      by (simp add: save_entry_def example_due_def example_entry_def)
  qed
  from r b s n show ?thesis by (intro conjI)
qed

subsection \<open>Practice\<close>

lemma startPractice_db: "server_db (startPractice now uid shuffle w) = server_db w"
  by (simp add: startPractice_def Let_def)

lemma nextPracticeQuestion_db: "server_db (nextPracticeQuestion w) = server_db w"
  by (simp add: nextPracticeQuestion_def showPracticeResult_def Let_def split: option.splits)

lemma submitPracticeAnswer_db: "server_db (submitPracticeAnswer input w) = server_db w"
  by (simp add: submitPracticeAnswer_def nextPracticeQuestion_db Let_def split: option.splits)

lemma practice_step_db:
  "practice_event ev \<Longrightarrow> server_db (step uid (now, ev) w) = server_db w"
  by (cases ev) (simp_all add: startPractice_db submitPracticeAnswer_db)

lemma practice_run_db:
  "list_all (\<lambda>x. practice_event (snd x)) evs \<Longrightarrow> server_db (run uid evs w) = server_db w"
proof (induction evs arbitrary: w)
  case Nil
  then show ?case by simp
next
  case (Cons ev evs)
  obtain now x where ev: "ev = (now, x)" by (cases ev)
  with Cons.prems have p: "practice_event x" and r: "list_all (\<lambda>x. practice_event (snd x)) evs"
    by simp_all
  from Cons.IH [OF r, of "step uid ev w"] practice_step_db [OF p, of uid now w] ev
  show ?case by simp
qed

lemma strip_by_cong:
  assumes "\<forall>c \<in> set s. P c = Q c"
  shows "strip_by P s = strip_by Q s"
proof -
  from assms have a: "dropWhile P s = dropWhile Q s"
    by (intro dropWhile_cong) simp_all
  have "set (dropWhile Q s) \<subseteq> set s" by (rule set_dropWhileD [THEN subsetI])
  with assms have "\<forall>c \<in> set (rev (dropWhile Q s)). P c = Q c" by auto
  then have "dropWhile P (rev (dropWhile Q s)) = dropWhile Q (rev (dropWhile Q s))"
    by (intro dropWhile_cong) simp_all
  with a show ?thesis by (simp add: strip_by_def)
qed

lemma strip_by_idem: "strip_by P (strip_by P s) = strip_by P s"
proof -
  from strip_by_trimmed [of P s]
  have "strip_by P s = [] \<or> (\<not> P (hd (strip_by P s)) \<and> \<not> P (last (strip_by P s)))"
    by (auto simp: trimmed_of_def trimmed_of_iff)
  then have "trimmed_of P (strip_by P s) (strip_by P s)"
    unfolding trimmed_of_def by (intro exI [of _ "[]"]) simp
  then show ?thesis by (simp add: trimmed_of_iff)
qed

lemma set_strip_by: "set (strip_by P s) \<subseteq> set s"
proof -
  from strip_by_trimmed [of P s] obtain l r where "s = l @ strip_by P s @ r"
    unfolding trimmed_of_def by blast
  then have "set s = set l \<union> set (strip_by P s) \<union> set r"
    by (metis set_append sup_assoc)
  then show ?thesis by blast
qed

lemma py_strip_js_trim:
  assumes "\<forall>c \<in> set input. (of_char c :: nat) \<notin> {28, 29, 30, 31, 133}"
  shows "py_strip (js_trim input) = js_trim input"
proof -
  have "\<forall>c \<in> set (js_trim input). py_isspace c = js_isspace c"
  proof
    fix c assume "c \<in> set (js_trim input)"
    with set_strip_by [of js_isspace input] have "c \<in> set input" by (auto simp: js_trim_def)
    with assms have "(of_char c :: nat) \<notin> {28, 29, 30, 31, 133}" by blast
    then show "py_isspace c = js_isspace c"
      by (auto simp: py_isspace_def js_isspace_def)
  qed
  then have "py_strip (js_trim input) = strip_by js_isspace (js_trim input)"
    unfolding py_strip_def by (rule strip_by_cong)
  then show ?thesis by (simp add: js_trim_def strip_by_idem)
qed

lemma practice_correct_iff:
  "practice_correct (js_trim input) e \<longleftrightarrow>
     (\<exists>t. trimmed_of js_isspace input t \<and> equal_ignoring_case t (english e))"
  by (simp add: trimmed_of_iff practice_correct_def js_toLowerCase_def lower_eq_iff js_trim_def)

text \<open>
  C9 (as amended). No event of a practice (\<^verbatim>\<open>startPractice\<close>, \<^verbatim>\<open>submitPracticeAnswer\<close>
  and the \<^verbatim>\<open>nextPracticeQuestion\<close> it calls) sends an answer to the server: after any
  sequence of them, whatever the number of sessions, the table is what it was, so no item's
  schedule, history, index or completion flag changes. The verdict is computed in the page
  by a trimmed case-insensitive match, where the trimming is that of \<^verbatim>\<open>trim()\<close>. It is
  the verdict \<^verbatim>\<open>/api/answer\<close> gives for the same text whenever the text has none of the
  characters 28 to 31 and U+0085, which \<^verbatim>\<open>strip()\<close> removes and \<^verbatim>\<open>trim()\<close> keeps.
\<close>

theorem practice_changes_no_entry:
  "(list_all (\<lambda>x. practice_event (snd x)) evs \<longrightarrow>
      server_db (run uid evs w) = server_db w) \<and>
   (practice_correct (js_trim input) e \<longleftrightarrow>
      (\<exists>t. trimmed_of js_isspace input t \<and> equal_ignoring_case t (english e))) \<and>
   (practiceState w = Some s \<and> \<not> ps_waiting s \<and> ps_idx s < length (ps_reviews s) \<and>
    js_trim input \<noteq> [] \<longrightarrow>
      submitPracticeAnswer input w =
        w\<lparr>practiceState :=
            Some (if practice_correct (js_trim input) (ps_reviews s ! ps_idx s)
                  then s\<lparr>ps_correct := ps_correct s + 1, ps_waiting := True\<rparr>
                  else s\<lparr>ps_incorrect := ps_incorrect s @ [ps_reviews s ! ps_idx s],
                         ps_waiting := True\<rparr>)\<rparr>) \<and>
   ((\<forall>c \<in> set input. (of_char c :: nat) \<notin> {28, 29, 30, 31, 133}) \<longrightarrow>
      practice_correct (js_trim input) e =
        answer_matches (py_strip (js_trim input)) (english e))"
proof (intro conjI impI)
  assume "list_all (\<lambda>x. practice_event (snd x)) evs"
  then show "server_db (run uid evs w) = server_db w" by (rule practice_run_db)
next
  show "practice_correct (js_trim input) e \<longleftrightarrow>
      (\<exists>t. trimmed_of js_isspace input t \<and> equal_ignoring_case t (english e))"
    by (rule practice_correct_iff)
next
  assume "practiceState w = Some s \<and> \<not> ps_waiting s \<and> ps_idx s < length (ps_reviews s) \<and>
    js_trim input \<noteq> []"
  then show "submitPracticeAnswer input w =
        w\<lparr>practiceState :=
            Some (if practice_correct (js_trim input) (ps_reviews s ! ps_idx s)
                  then s\<lparr>ps_correct := ps_correct s + 1, ps_waiting := True\<rparr>
                  else s\<lparr>ps_incorrect := ps_incorrect s @ [ps_reviews s ! ps_idx s],
                         ps_waiting := True\<rparr>)\<rparr>"
    by (simp add: submitPracticeAnswer_def Let_def)
next
  assume "\<forall>c \<in> set input. (of_char c :: nat) \<notin> {28, 29, 30, 31, 133}"
  then have "py_strip (js_trim input) = js_trim input" by (rule py_strip_js_trim)
  then show "practice_correct (js_trim input) e =
        answer_matches (py_strip (js_trim input)) (english e)"
    by (simp add: practice_correct_def answer_matches_def js_toLowerCase_def py_lower_def)
qed

lemmas client_eval = startTest_def nextQuestion_def submitAnswer_def startRetry_def
  showFinalResult_def showRoundResult_def renderQuestion_def startPractice_def
  showPracticeResult_def nextPracticeQuestion_def submitPracticeAnswer_def confirmBack_def

text \<open>Two practices over the example entry on 2024-01-02, the day of its last answer: one
  answered rightly, one wrongly. The table is unchanged; the second practice ends with 0 of
  1 correct.\<close>

theorem practice_changes_no_entry_witness:
  "list_all (\<lambda>x. practice_event (snd x))
     [((Date 2024 1 2, Date 2024 1 2), StartPractice (\<lambda>xs. xs)),
      ((Date 2024 1 2, Date 2024 1 2), SubmitPracticeAnswer '' CAT ''),
      ((Date 2024 1 2, Date 2024 1 2), SubmitPracticeAnswer '' CAT ''),
      ((Date 2024 1 2, Date 2024 1 2), StartPractice rev),
      ((Date 2024 1 2, Date 2024 1 2), SubmitPracticeAnswer ''dog''),
      ((Date 2024 1 2, Date 2024 1 2), SubmitPracticeAnswer ''dog'')] \<and>
   server_db (run 1
     [((Date 2024 1 2, Date 2024 1 2), StartPractice (\<lambda>xs. xs)),
      ((Date 2024 1 2, Date 2024 1 2), SubmitPracticeAnswer '' CAT ''),
      ((Date 2024 1 2, Date 2024 1 2), SubmitPracticeAnswer '' CAT ''),
      ((Date 2024 1 2, Date 2024 1 2), StartPractice rev),
      ((Date 2024 1 2, Date 2024 1 2), SubmitPracticeAnswer ''dog''),
      ((Date 2024 1 2, Date 2024 1 2), SubmitPracticeAnswer ''dog'')] example_world) = server_db example_world \<and>
   shown (run 1
     [((Date 2024 1 2, Date 2024 1 2), StartPractice (\<lambda>xs. xs)),
      ((Date 2024 1 2, Date 2024 1 2), SubmitPracticeAnswer '' CAT ''),
      ((Date 2024 1 2, Date 2024 1 2), SubmitPracticeAnswer '' CAT ''),
      ((Date 2024 1 2, Date 2024 1 2), StartPractice rev),
      ((Date 2024 1 2, Date 2024 1 2), SubmitPracticeAnswer ''dog''),
      ((Date 2024 1 2, Date 2024 1 2), SubmitPracticeAnswer ''dog'')] example_world) =
     PracticeResult 0 1 [example_due] \<and>
   practice_correct (js_trim '' CAT '') example_due \<and>
   (\<exists>t. trimmed_of js_isspace '' CAT '' t \<and> equal_ignoring_case t (english example_due)) \<and>
   answer_matches (py_strip (js_trim '' CAT '')) (english example_due)"
proof -
  let ?evs = "[((Date 2024 1 2, Date 2024 1 2), StartPractice (\<lambda>xs. xs)),
      ((Date 2024 1 2, Date 2024 1 2), SubmitPracticeAnswer '' CAT ''),
      ((Date 2024 1 2, Date 2024 1 2), SubmitPracticeAnswer '' CAT ''),
      ((Date 2024 1 2, Date 2024 1 2), StartPractice rev),
      ((Date 2024 1 2, Date 2024 1 2), SubmitPracticeAnswer ''dog''),
      ((Date 2024 1 2, Date 2024 1 2), SubmitPracticeAnswer ''dog'')]"
  have p: "list_all (\<lambda>x. practice_event (snd x)) ?evs" by simp
  have t: "get_today_str (Date 2024 1 2) = ''2024-01-02''" by (rule iso_2024_01)
  have pr: "api_today_practiced (Date 2024 1 2) 1 (server_db example_world) = [example_due]"
    unfolding api_today_practiced_def t
    by (simp add: example_world_def example_due_def example_entry_def correct_on_def)
  have v: "practice_correct (js_trim '' CAT '') example_due"
    "\<not> practice_correct (js_trim ''dog'') example_due"
    "js_trim '' CAT '' \<noteq> []" "js_trim ''dog'' \<noteq> []"
    by (simp_all add: example_due_def example_entry_def text_eval)
  have db: "server_db (run 1 ?evs example_world) = server_db example_world"
    using practice_changes_no_entry [of ?evs 1 example_world] p by blast
  have ex: "\<exists>t. trimmed_of js_isspace '' CAT '' t \<and> equal_ignoring_case t (english example_due)"
    using practice_changes_no_entry [of "[]" 1 example_world "'' CAT ''" example_due] v(1) by blast
  have sh: "shown (run 1 ?evs example_world) = PracticeResult 0 1 [example_due]"
    using pr v by (simp add: client_eval Let_def)
  have "\<forall>c \<in> set '' CAT ''. (of_char c :: nat) \<notin> {28, 29, 30, 31, 133}" by simp
  with practice_changes_no_entry [of "[]" 1 example_world "'' CAT ''" example_due] v(1)
  have am: "answer_matches (py_strip (js_trim '' CAT '')) (english example_due)" by blast
  from p db sh v(1) ex am show ?thesis by (intro conjI)
qed

text \<open>
  C9 as stated fails in its last part: the two verdicts are not computed by the same rule
  for every text. The answer U+0085 \<^verbatim>\<open>cat\<close> is left as it is by \<^verbatim>\<open>trim()\<close>, so a
  practice counts it wrong, while \<^verbatim>\<open>strip()\<close> removes the first character and
  \<^verbatim>\<open>/api/answer\<close> counts the same text right.
\<close>

theorem practice_verdict_differs_counterexample:
  "js_trim [CHR 0x85, CHR ''c'', CHR ''a'', CHR ''t''] = [CHR 0x85, CHR ''c'', CHR ''a'', CHR ''t''] \<and>
   \<not> practice_correct (js_trim [CHR 0x85, CHR ''c'', CHR ''a'', CHR ''t'']) example_due \<and>
   shown (run 1
     [((Date 2024 1 2, Date 2024 1 2), StartPractice (\<lambda>xs. xs)),
      ((Date 2024 1 2, Date 2024 1 2),
         SubmitPracticeAnswer [CHR 0x85, CHR ''c'', CHR ''a'', CHR ''t'']),
      ((Date 2024 1 2, Date 2024 1 2),
         SubmitPracticeAnswer [CHR 0x85, CHR ''c'', CHR ''a'', CHR ''t''])] example_world) =
     PracticeResult 0 1 [example_due] \<and>
   answer_matches (py_strip (js_trim [CHR 0x85, CHR ''c'', CHR ''a'', CHR ''t'']))
     (english example_due) \<and>
   fst (api_answer (Date 2024 1 4) (Date 2024 1 4) 1 1
          (Some (js_trim [CHR 0x85, CHR ''c'', CHR ''a'', CHR ''t''])) [example_due]) =
     Inr \<lparr>resp_correct = True, resp_expected = ''cat'', resp_completed = False\<rparr>"
proof -
  let ?a = "[CHR 0x85, CHR ''c'', CHR ''a'', CHR ''t'']"
  have j: "js_trim ?a = ?a" by (simp add: text_eval)
  have n: "\<not> practice_correct ?a example_due"
    by (simp add: example_due_def example_entry_def text_eval)
  have m: "answer_matches (py_strip ?a) (english example_due)"
    by (simp add: example_due_def example_entry_def text_eval)
  have t: "get_today_str (Date 2024 1 2) = ''2024-01-02''" by (rule iso_2024_01)
  have pr: "api_today_practiced (Date 2024 1 2) 1 (server_db example_world) = [example_due]"
    unfolding api_today_practiced_def t
    by (simp add: example_world_def example_due_def example_entry_def correct_on_def)
  have sh: "shown (run 1
     [((Date 2024 1 2, Date 2024 1 2), StartPractice (\<lambda>xs. xs)),
      ((Date 2024 1 2, Date 2024 1 2), SubmitPracticeAnswer ?a),
      ((Date 2024 1 2, Date 2024 1 2), SubmitPracticeAnswer ?a)] example_world) =
     PracticeResult 0 1 [example_due]"
    using pr n j by (simp add: client_eval Let_def)
  have f: "find_entry 1 1 [example_due] = Some example_due"
    unfolding example_due_def by (rule find_example)
  have "answer_entry (Date 2024 1 4) (Date 2024 1 4) (py_strip ?a) example_due =
      Inr (True, example_due\<lparr>next_review_index := next_review_index example_due + 1,
             completed := (if int (length (schedule example_due)) \<le>
                                next_review_index example_due + 1
                           then True else completed example_due),
             history := history example_due @ [correct_on (get_today_str (Date 2024 1 4))]\<rparr>)"
    by (rule answer_entry_correct [OF m])
  from api_answer_found [OF f this]
  have r: "fst (api_answer (Date 2024 1 4) (Date 2024 1 4) 1 1 (Some ?a) [example_due]) =
     Inr \<lparr>resp_correct = True, resp_expected = ''cat'', resp_completed = False\<rparr>"
    by (simp add: example_due_def example_entry_def example_schedule_def)
  from j n sh m r show ?thesis by (simp only: j simp_thms)
qed

subsection \<open>A Review Test without a wrong answer\<close>

lemma select_due_subset: "select_due today es = Inr r \<Longrightarrow> set r \<subseteq> set es"
  by (induction es arbitrary: r) (auto split: sum.splits if_splits)

lemma api_reviews_members:
  assumes "api_reviews now uid db = Inr rs" "x \<in> set rs"
  shows "x \<in> set db \<and> user_id x = uid"
  using select_due_subset [OF assms(1) [unfolded api_reviews_def]] assms(2) by auto

lemma find_entry_distinct:
  "distinct (map entry_id db) \<Longrightarrow> x \<in> set db \<Longrightarrow> user_id x = uid \<Longrightarrow>
   find_entry (entry_id x) uid db = Some x"
  by (induction db) (auto simp: find_entry_def)

lemma find_entry_same_keys:
  assumes "map (\<lambda>e. (entry_id e, user_id e, english e)) db' =
           map (\<lambda>e. (entry_id e, user_id e, english e)) db"
    and "find_entry i u db = Some x"
  shows "\<exists>y. find_entry i u db' = Some y \<and> entry_id y = entry_id x \<and> english y = english x"
  using assms
proof (induction db arbitrary: db')
  case Nil
  then show ?case by (simp add: find_entry_def)
next
  case (Cons a db)
  from Cons.prems(1) obtain b rest where d: "db' = b # rest"
    and ab: "entry_id b = entry_id a" "user_id b = user_id a" "english b = english a"
    and r: "map (\<lambda>e. (entry_id e, user_id e, english e)) rest =
            map (\<lambda>e. (entry_id e, user_id e, english e)) db"
    by (cases db') auto
  show ?case
  proof (cases "entry_id a = i \<and> user_id a = u")
    case True
    with Cons.prems(2) ab d show ?thesis by (simp add: find_entry_def)
  next
    case False
    with Cons.prems(2) have "find_entry i u db = Some x" by (simp add: find_entry_def)
    from Cons.IH [OF r this] False ab d show ?thesis by (auto simp: find_entry_def)
  qed
qed

lemma find_entry_Some:
  "find_entry i u db = Some x \<Longrightarrow> x \<in> set db \<and> entry_id x = i \<and> user_id x = u"
  by (induction db) (auto simp: find_entry_def split: if_splits)

lemma save_entry_same_keys:
  assumes d: "distinct (map entry_id db)" and x: "x \<in> set db"
    and k: "entry_id x' = entry_id x" "user_id x' = user_id x" "english x' = english x"
  shows "map (\<lambda>e. (entry_id e, user_id e, english e)) (save_entry x' db) =
         map (\<lambda>e. (entry_id e, user_id e, english e)) db"
proof -
  have "\<forall>y \<in> set db. entry_id y = entry_id x' \<longrightarrow> y = x"
  proof (intro ballI impI)
    fix y assume "y \<in> set db" "entry_id y = entry_id x'"
    with d x k(1) show "y = x" by (auto simp: distinct_map inj_on_def)
  qed
  with k show ?thesis by (auto simp: save_entry_def)
qed

lemma answer_entry_keeps:
  "answer_entry now later a e = Inr (c, e') \<Longrightarrow>
   entry_id e' = entry_id e \<and> user_id e' = user_id e \<and> english e' = english e"
  by (auto simp: answer_entry_def Let_def split: if_splits sum.splits)

lemma same_keys_distinct:
  assumes "map (\<lambda>e. (entry_id e, user_id e, english e)) db' =
           map (\<lambda>e. (entry_id e, user_id e, english e)) db"
  shows "map entry_id db' = map entry_id db"
proof -
  from assms have "map fst (map (\<lambda>e. (entry_id e, user_id e, english e)) db') =
      map fst (map (\<lambda>e. (entry_id e, user_id e, english e)) db)" by simp
  then show ?thesis by (simp add: comp_def)
qed

text \<open>One correct submission: the answer, then "next".\<close>

lemma correct_submission:
  assumes keys: "map (\<lambda>e. (entry_id e, user_id e, english e)) (server_db w) =
                 map (\<lambda>e. (entry_id e, user_id e, english e)) db"
    and dist: "distinct (map entry_id db)"
    and mem: "\<forall>x \<in> set (ts_reviews s). x \<in> set db \<and> user_id x = uid"
    and st: "testState w = Test s" "\<not> ts_waiting s" "ts_incorrect s = []"
    and k: "ts_idx s < length (ts_reviews s)"
    and a: "js_trim input \<noteq> []"
      "answer_matches (py_strip (js_trim input)) (english (ts_reviews s ! ts_idx s))"
  shows "\<exists>w'. submitAnswer clock uid input (submitAnswer clock uid input w) = w' \<and>
              map (\<lambda>e. (entry_id e, user_id e, english e)) (server_db w') =
                map (\<lambda>e. (entry_id e, user_id e, english e)) db \<and>
              testState w' = Test (s\<lparr>ts_idx := ts_idx s + 1, ts_tested := ts_tested s + 1,
                                     ts_correct := ts_correct s + 1\<rparr>) \<and>
              shown w' = (if ts_idx s + 1 \<ge> length (ts_reviews s) then FinalResult
                          else Question)"
proof -
  let ?entry = "ts_reviews s ! ts_idx s"
  let ?answer = "js_trim input"
  from k mem have m: "?entry \<in> set db" "user_id ?entry = uid" by simp_all
  from find_entry_distinct [OF dist m] have "find_entry (entry_id ?entry) uid db = Some ?entry" .
  from find_entry_same_keys [OF keys this] obtain y
    where y: "find_entry (entry_id ?entry) uid (server_db w) = Some y"
      and ye: "english y = english ?entry" by blast
  from a(2) ye have my: "answer_matches (py_strip ?answer) (english y)" by simp
  define y' where "y' = y\<lparr>next_review_index := next_review_index y + 1,
                        completed := (if int (length (schedule y)) \<le> next_review_index y + 1
                                      then True else completed y),
                        history := history y @ [correct_on (get_today_str (fst clock))]\<rparr>"
  have ae: "answer_entry (fst clock) (snd clock) (py_strip ?answer) y = Inr (True, y')"
    unfolding y'_def by (rule answer_entry_correct [OF my])
  have api: "api_answer (fst clock) (snd clock) uid (entry_id ?entry) (Some ?answer) (server_db w) =
      (Inr \<lparr>resp_correct = True, resp_expected = english y', resp_completed = completed y'\<rparr>,
       save_entry y' (server_db w))"
    by (rule api_answer_found [OF y ae])
  define s1 where "s1 = s\<lparr>ts_tested := ts_tested s + 1, ts_correct := ts_correct s + 1,
                          ts_waiting := True\<rparr>"
  define w1 where "w1 = w\<lparr>server_db := save_entry y' (server_db w), testState := Test s1\<rparr>"
  have step1: "submitAnswer clock uid input w = w1"
    using st k a(1) api by (simp add: submitAnswer_def Let_def w1_def s1_def)
  have step2: "submitAnswer clock uid input w1 = nextQuestion w1"
    by (simp add: submitAnswer_def w1_def s1_def)
  from same_keys_distinct [OF keys] dist have dw: "distinct (map entry_id (server_db w))" by simp
  from find_entry_Some [OF y] have yin: "y \<in> set (server_db w)" by simp
  from answer_entry_keeps [OF ae]
  have "map (\<lambda>e. (entry_id e, user_id e, english e)) (save_entry y' (server_db w)) =
        map (\<lambda>e. (entry_id e, user_id e, english e)) (server_db w)"
    by (intro save_entry_same_keys [OF dw yin]) simp_all
  with keys have k1: "map (\<lambda>e. (entry_id e, user_id e, english e)) (server_db w1) =
        map (\<lambda>e. (entry_id e, user_id e, english e)) db"
    by (simp add: w1_def)
  have "testState (nextQuestion w1) =
      Test (s\<lparr>ts_idx := ts_idx s + 1, ts_tested := ts_tested s + 1,
               ts_correct := ts_correct s + 1\<rparr>)"
    and "shown (nextQuestion w1) =
      (if ts_idx s + 1 \<ge> length (ts_reviews s) then FinalResult else Question)"
    and "server_db (nextQuestion w1) = server_db w1"
    using st(2,3)
    by (simp_all add: nextQuestion_def Let_def w1_def s1_def showFinalResult_def
          showRoundResult_def renderQuestion_def)
  with k1 step1 step2 show ?thesis by simp
qed

lemma run_correct_submissions:
  assumes keys: "map (\<lambda>e. (entry_id e, user_id e, english e)) (server_db w) =
                 map (\<lambda>e. (entry_id e, user_id e, english e)) db"
    and dist: "distinct (map entry_id db)"
    and mem: "\<forall>x \<in> set (ts_reviews s). x \<in> set db \<and> user_id x = uid"
    and st: "testState w = Test s" "\<not> ts_waiting s" "ts_incorrect s = []"
    and len: "ts_idx s + length answers \<le> length (ts_reviews s)"
    and ok: "\<forall>j<length answers. js_trim (snd (answers ! j)) \<noteq> [] \<and>
               answer_matches (py_strip (js_trim (snd (answers ! j))))
                 (english (ts_reviews s ! (ts_idx s + j)))"
  shows "map (\<lambda>e. (entry_id e, user_id e, english e)) (server_db (run uid (submissions answers) w)) =
           map (\<lambda>e. (entry_id e, user_id e, english e)) db \<and>
         testState (run uid (submissions answers) w) =
           Test (s\<lparr>ts_idx := ts_idx s + length answers,
                    ts_tested := ts_tested s + length answers,
                    ts_correct := ts_correct s + length answers\<rparr>) \<and>
         shown (run uid (submissions answers) w) =
           (if answers = [] then shown w
            else if ts_idx s + length answers \<ge> length (ts_reviews s) then FinalResult
            else Question)"
  using keys mem st len ok
proof (induction answers arbitrary: w s)
  case Nil
  then show ?case by simp
next
  case (Cons a rest)
  obtain now input where a: "a = (now, input)" by (cases a)
  from Cons.prems(6) have k: "ts_idx s < length (ts_reviews s)" by simp
  from Cons.prems(7) [rule_format, of 0] a
  have a0: "js_trim input \<noteq> []"
    "answer_matches (py_strip (js_trim input)) (english (ts_reviews s ! ts_idx s))"
    by simp_all
  define s1 where "s1 = s\<lparr>ts_idx := ts_idx s + 1, ts_tested := ts_tested s + 1,
                          ts_correct := ts_correct s + 1\<rparr>"
  define w1 where "w1 = submitAnswer now uid input (submitAnswer now uid input w)"
  from correct_submission [OF Cons.prems(1) dist Cons.prems(2) Cons.prems(3,4,5) k a0,
         where ?clock = now]
  have k1: "map (\<lambda>e. (entry_id e, user_id e, english e)) (server_db w1) =
            map (\<lambda>e. (entry_id e, user_id e, english e)) db"
    and t1: "testState w1 = Test s1"
    and sh1: "shown w1 = (if ts_idx s + 1 \<ge> length (ts_reviews s) then FinalResult
                          else Question)"
    by (simp_all add: w1_def s1_def)
  have m1: "\<forall>x \<in> set (ts_reviews s1). x \<in> set db \<and> user_id x = uid"
    using Cons.prems(2) by (simp add: s1_def)
  have f1: "\<not> ts_waiting s1" "ts_incorrect s1 = []"
    using Cons.prems(4,5) by (simp_all add: s1_def)
  have l1: "ts_idx s1 + length rest \<le> length (ts_reviews s1)"
    using Cons.prems(6) by (simp add: s1_def)
  have ok1: "\<forall>j<length rest. js_trim (snd (rest ! j)) \<noteq> [] \<and>
               answer_matches (py_strip (js_trim (snd (rest ! j))))
                 (english (ts_reviews s1 ! (ts_idx s1 + j)))"
  proof (intro allI impI)
    fix j assume "j < length rest"
    then have "Suc j < length (a # rest)" by simp
    from Cons.prems(7) [rule_format, OF this]
    show "js_trim (snd (rest ! j)) \<noteq> [] \<and>
               answer_matches (py_strip (js_trim (snd (rest ! j))))
                 (english (ts_reviews s1 ! (ts_idx s1 + j)))"
      by (simp add: s1_def)
  qed
  have r: "run uid (submissions (a # rest)) w = run uid (submissions rest) w1"
    by (simp add: a w1_def)
  from Cons.IH [OF k1 m1 t1 f1 l1 ok1] sh1 show ?case
    unfolding r by (auto simp: s1_def)
qed

lemma startTest_nonempty:
  assumes "api_reviews now uid (server_db w) = Inr due" "due \<noteq> []"
  shows "startTest now uid w =
     w\<lparr>testState := Test \<lparr>ts_reviews = due, ts_idx = 0, ts_correct = 0,
                             ts_tested = 0, ts_waiting = False, ts_incorrect = [],
                             ts_round = 1, ts_totalOriginal = length due\<rparr>,
       shown := Question\<rparr>"
  using assms by (simp add: startTest_def)

text \<open>
  C8. A Review Test over a non-empty due set of \<open>N\<close> entries in which every submitted
  answer is correct shows the final result after exactly \<open>N\<close> submissions: after fewer it
  still shows a question, after \<open>N\<close> it shows \<^verbatim>\<open>FinalResult\<close> with the round counter at 1,
  \<open>N\<close> answers tested, \<open>N\<close> correct and none to retry. The ids of the table are distinct
  (the primary key).
\<close>

theorem all_correct_test_reaches_final_result:
  assumes dist: "distinct (map entry_id (server_db w))"
    and start: "api_reviews (fst started) uid (server_db w) = Inr due" "due \<noteq> []"
    and n: "length answers = length due"
    and ok: "\<forall>j<length due. js_trim (snd (answers ! j)) \<noteq> [] \<and>
               answer_matches (py_strip (js_trim (snd (answers ! j)))) (english (due ! j))"
  shows "shown (run uid ((started, StartTest) # submissions answers) w) = FinalResult \<and>
         (\<exists>s. testState (run uid ((started, StartTest) # submissions answers) w) = Test s \<and>
              ts_round s = 1 \<and> ts_tested s = length due \<and> ts_correct s = length due \<and>
              ts_incorrect s = [] \<and> ts_totalOriginal s = length due) \<and>
         (\<forall>m<length due.
            shown (run uid ((started, StartTest) # submissions (take m answers)) w) = Question)"
proof -
  define s0 where "s0 = \<lparr>ts_reviews = due, ts_idx = 0, ts_correct = 0,
                             ts_tested = 0, ts_waiting = False, ts_incorrect = [],
                             ts_round = 1, ts_totalOriginal = length due\<rparr>"
  define w0 where "w0 = startTest (fst started) uid w"
  from startTest_nonempty [OF start]
  have w0: "w0 = w\<lparr>testState := Test s0, shown := Question\<rparr>"
    by (simp add: w0_def s0_def)
  have keys: "map (\<lambda>e. (entry_id e, user_id e, english e)) (server_db w0) =
              map (\<lambda>e. (entry_id e, user_id e, english e)) (server_db w)"
    by (simp add: w0)
  have mem: "\<forall>x \<in> set (ts_reviews s0). x \<in> set (server_db w) \<and> user_id x = uid"
    using api_reviews_members [OF start(1)] by (simp add: s0_def)
  have st: "testState w0 = Test s0" "\<not> ts_waiting s0" "ts_incorrect s0 = []"
    by (simp_all add: w0 s0_def)
  have full: "ts_idx s0 + length answers \<le> length (ts_reviews s0)"
    using n by (simp add: s0_def)
  have okf: "\<forall>j<length answers. js_trim (snd (answers ! j)) \<noteq> [] \<and>
               answer_matches (py_strip (js_trim (snd (answers ! j))))
                 (english (ts_reviews s0 ! (ts_idx s0 + j)))"
    using ok n by (simp add: s0_def)
  from start(2) n have ne: "answers \<noteq> []" by auto
  from run_correct_submissions [OF keys dist mem st full okf] ne n
  have fin: "shown (run uid (submissions answers) w0) = FinalResult"
    and fs: "testState (run uid (submissions answers) w0) =
           Test (s0\<lparr>ts_idx := ts_idx s0 + length answers,
                    ts_tested := ts_tested s0 + length answers,
                    ts_correct := ts_correct s0 + length answers\<rparr>)"
    by (simp_all add: s0_def)
  have part: "shown (run uid (submissions (take m answers)) w0) = Question" if m: "m < length due" for m
  proof -
    from m n have lm: "length (take m answers) = m" by simp
    have p1: "ts_idx s0 + length (take m answers) \<le> length (ts_reviews s0)"
      using m lm by (simp add: s0_def)
    have p2: "\<forall>j<length (take m answers). js_trim (snd (take m answers ! j)) \<noteq> [] \<and>
               answer_matches (py_strip (js_trim (snd (take m answers ! j))))
                 (english (ts_reviews s0 ! (ts_idx s0 + j)))"
      using ok m lm by (simp add: s0_def)
    from run_correct_submissions [OF keys dist mem st p1 p2] m lm
    show ?thesis by (simp add: s0_def w0)
  qed
  have r: "run uid ((started, StartTest) # evs) w = run uid evs w0" for evs
    by (simp add: w0_def)
  from fin fs part n show ?thesis
    unfolding r by (simp add: s0_def)
qed

lemma api_reviews_example:
  "api_reviews (Date 2024 1 4) 1 (server_db example_world) = Inr [example_due]"
  unfolding api_reviews_def iso_2024_01
  by (simp add: example_world_def example_due_def example_entry_def example_schedule_def
        due_check_def list_getitem_def)

text \<open>A test over the example entry, due on 2024-01-04 and answered \<^verbatim>\<open>" Cat "\<close>: one
  submission, then the final result in round 1; the entry has moved to tier 2.\<close>

theorem all_correct_test_reaches_final_result_witness:
  "api_reviews (Date 2024 1 4) 1 (server_db example_world) = Inr [example_due] \<and>
   shown (run 1 (((Date 2024 1 4, Date 2024 1 4), StartTest) # submissions [((Date 2024 1 4, Date 2024 1 4), '' Cat '')])
            example_world) = FinalResult \<and>
   (\<exists>s. testState (run 1 (((Date 2024 1 4, Date 2024 1 4), StartTest) # submissions [((Date 2024 1 4, Date 2024 1 4), '' Cat '')])
                      example_world) = Test s \<and>
        ts_round s = 1 \<and> ts_tested s = 1 \<and> ts_correct s = 1 \<and> ts_incorrect s = []) \<and>
   shown (run 1 [((Date 2024 1 4, Date 2024 1 4), StartTest)] example_world) = Question"
proof -
  have d: "distinct (map entry_id (server_db example_world))"
    by (simp add: example_world_def)
  have ne: "[example_due] \<noteq> []" by simp
  have n: "length [((Date 2024 1 4, Date 2024 1 4), '' Cat '')] = length [example_due]" by simp
  have ok: "\<forall>j<length [example_due]. js_trim (snd ([((Date 2024 1 4, Date 2024 1 4), '' Cat '')] ! j)) \<noteq> [] \<and>
      answer_matches (py_strip (js_trim (snd ([((Date 2024 1 4, Date 2024 1 4), '' Cat '')] ! j))))
        (english ([example_due] ! j))"
    by (simp add: example_due_def example_entry_def text_eval)
  from all_correct_test_reaches_final_result
         [where ?started = "(Date 2024 1 4, Date 2024 1 4)", unfolded fst_conv,
          OF d api_reviews_example ne n ok]
  have "shown (run 1 (((Date 2024 1 4, Date 2024 1 4), StartTest) # submissions [((Date 2024 1 4, Date 2024 1 4), '' Cat '')])
            example_world) = FinalResult"
    and "\<exists>s. testState (run 1 (((Date 2024 1 4, Date 2024 1 4), StartTest) # submissions [((Date 2024 1 4, Date 2024 1 4), '' Cat '')])
                      example_world) = Test s \<and>
        ts_round s = 1 \<and> ts_tested s = 1 \<and> ts_correct s = 1 \<and> ts_incorrect s = []"
    and "\<forall>m<length [example_due].
            shown (run 1 (((Date 2024 1 4, Date 2024 1 4), StartTest) #
                     submissions (take m [((Date 2024 1 4, Date 2024 1 4), '' Cat '')])) example_world) = Question"
    by auto
  then show ?thesis
    using api_reviews_example by auto
qed

end
